theory Spec2Isabelle
  imports Main
begin

section \<open>JavaScript values\<close>

text \<open>
  The values the client handles: everything \<open>JSON.parse\<close> can return, and
  \<open>undefined\<close>, the result of reading a property that is absent. Numbers are the
  integer-valued ones; the client only tests a number for zero, compares it with a
  request id and passes it on. An object is the list of its properties in the order they
  were written; where a name is repeated the last one counts, as in \<open>JSON.parse\<close>.
\<close>

datatype jsval =
    JUndefined
  | JNull
  | JBool bool
  | JNum int
  | JStr string
  | JArr "jsval list"
  | JObj "(string \<times> jsval) list"

text \<open>The condition of \<open>if (v)\<close>, \<open>!v\<close>, \<open>a && b\<close> and \<open>a || b\<close>.\<close>

fun truthy :: "jsval \<Rightarrow> bool" where
  "truthy JUndefined = False"
| "truthy JNull = False"
| "truthy (JBool b) = b"
| "truthy (JNum n) = (n \<noteq> 0)"
| "truthy (JStr s) = (s \<noteq> [])"
| "truthy (JArr xs) = True"
| "truthy (JObj kvs) = True"

text \<open>\<open>a || b\<close> as a value.\<close>

definition or_else :: "jsval \<Rightarrow> jsval \<Rightarrow> jsval" where
  "or_else a b = (if truthy a then a else b)"

text \<open>
  Reading \<open>v.k\<close> raises a TypeError on \<open>undefined\<close> and \<open>null\<close>. On every other
  value it yields the property, or \<open>undefined\<close>: none of the names the client reads
  (method, id, result, error, params, code, message, uri, progress, total,
  progressToken, level, data, capabilities, serverInfo, tools) is a property of a
  number, string, boolean or array.
\<close>

fun nullish :: "jsval \<Rightarrow> bool" where
  "nullish JUndefined = True"
| "nullish JNull = True"
| "nullish v = False"

fun field :: "jsval \<Rightarrow> string \<Rightarrow> jsval" where
  "field (JObj kvs) k = (case map_of (rev kvs) k of None \<Rightarrow> JUndefined | Some v \<Rightarrow> v)"
| "field v k = JUndefined"

text \<open>
  A template literal \<open>`... ${v} ...`\<close> converts \<open>v\<close> to a string. The conversion of
  an object calls its \<open>toString\<close>; a parsed object with a property of that name
  hides the inherited method behind a value that cannot be called, and the conversion
  raises a TypeError. An array converts its elements, except \<open>undefined\<close> and
  \<open>null\<close>, which it prints as nothing.
\<close>

fun to_string_ok :: "jsval \<Rightarrow> bool" where
  "to_string_ok (JObj kvs) = (map_of kvs ''toString'' = None)"
| "to_string_ok (JArr xs) = list_all to_string_ok xs"
| "to_string_ok v = True"

section \<open>Errors, effects and the state of a client\<close>

datatype js_error =
    TypeError
  | JsError string                \<comment> \<open>\<open>new Error(text)\<close> with a constant text\<close>
  | TimeoutError int              \<comment> \<open>\<open>Error(`Request timeout after ${timeoutMs}ms`)\<close>\<close>
  | RpcError jsval jsval          \<comment> \<open>\<open>Error(`Error ${code}: ${message}`)\<close>\<close>
  | HttpError int string          \<comment> \<open>\<open>Error(`HTTP error: ${status} ${statusText}`)\<close>\<close>
  | FetchError                    \<comment> \<open>the rejection of \<open>fetch\<close> itself\<close>

datatype console_level = Log | Warn | Err

text \<open>
  What the client does to the outside, in the order it does it. A promise, a listener
  callback and a \<open>fetch\<close> call are known by a number. Console output is recorded by
  its level and its leading text.
\<close>

datatype effect =
    Fetch nat string jsval        \<comment> \<open>POST of \<open>JSON.stringify(message)\<close> to the endpoint\<close>
  | Callback nat jsval            \<comment> \<open>an event listener called with the event's data\<close>
  | Resolve nat jsval             \<comment> \<open>\<open>resolve(value)\<close> of a promise\<close>
  | Reject nat js_error           \<comment> \<open>\<open>reject(error)\<close> of a promise\<close>
  | Close string                  \<comment> \<open>\<open>eventSource.close()\<close>\<close>
  | Console console_level string

text \<open>
  The closures the client hands to the runtime. The handler stored in
  \<open>messageHandlers\<close> captures the timer and the promise's \<open>resolve\<close> and
  \<open>reject\<close>; the timer's callback captures the request id, the promise's
  \<open>reject\<close> and the delay; the \<open>catch\<close> on the promise of \<open>sendMessage\<close>
  captures all three.
\<close>

record handler =
  h_timeoutId :: nat
  h_promise :: nat

record timer =
  t_id :: int
  t_promise :: nat
  t_timeoutMs :: int

datatype send_catch = Uncaught | SendRequestCatch int nat nat

record client =
  serverUrl :: string
  eventSource :: "string option"
  messageEndpoint :: "string option"
  messageHandlers :: "int \<rightharpoonup> handler"
  nextRequestId :: int
  connected :: bool
  eventListeners :: "string \<rightharpoonup> nat list"
  serverCapabilities :: jsval
  timers :: "nat \<rightharpoonup> timer"
  nextTimer :: nat
  nextPromise :: nat
  sends :: "nat \<rightharpoonup> send_catch"
  nextFetch :: nat
  trace :: "effect list"

text \<open>
  A promise of a result that is not there yet: the outcome of an \<open>async\<close> function
  at the moment it returns to its caller.
\<close>

datatype async = Throws js_error | Awaits nat

text \<open>
  A synchronous run of client code: the exception it ended with, if any, and the state
  it left. What was done before an exception stays done.
\<close>

type_synonym completion = "js_error option \<times> client"

definition constructor :: "string \<Rightarrow> client" where
  "constructor url =
     \<lparr>serverUrl = url, eventSource = None, messageEndpoint = None,
      messageHandlers = Map.empty, nextRequestId = 1, connected = False,
      eventListeners = Map.empty, serverCapabilities = JNull,
      timers = Map.empty, nextTimer = 1, nextPromise = 0,
      sends = Map.empty, nextFetch = 0, trace = []\<rparr>"

definition capabilities :: jsval where
  "capabilities = JObj [(''experimental'', JObj [])]"

definition clientInfo :: jsval where
  "clientInfo = JObj [(''name'', JStr ''MCPLite''), (''version'', JStr ''0.1.0'')]"

section \<open>The runtime: console, promises, timers\<close>

definition console :: "console_level \<Rightarrow> string \<Rightarrow> client \<Rightarrow> client" where
  "console l txt s = s\<lparr>trace := trace s @ [Console l txt]\<rparr>"

definition resolve :: "nat \<Rightarrow> jsval \<Rightarrow> client \<Rightarrow> client" where
  "resolve p v s = s\<lparr>trace := trace s @ [Resolve p v]\<rparr>"

definition reject :: "nat \<Rightarrow> js_error \<Rightarrow> client \<Rightarrow> client" where
  "reject p e s = s\<lparr>trace := trace s @ [Reject p e]\<rparr>"

definition setTimeout :: "timer \<Rightarrow> client \<Rightarrow> nat \<times> client" where
  "setTimeout c s =
     (nextTimer s, s\<lparr>timers := (timers s)(nextTimer s \<mapsto> c), nextTimer := Suc (nextTimer s)\<rparr>)"

definition clearTimeout :: "nat \<Rightarrow> client \<Rightarrow> client" where
  "clearTimeout t s = s\<lparr>timers := (timers s)(t := None)\<rparr>"

text \<open>
  \<open>n++\<close> on a JavaScript number: exact below \<open>2^53\<close>, where the sum rounds back
  to the number itself.
\<close>

definition js_incr :: "int \<Rightarrow> int" where
  "js_incr n = (if n < 9007199254740992 then n + 1 else n)"

text \<open>
  \<open>messageHandlers\<close> is a \<open>Map\<close> whose keys are the numbers \<open>sendRequest\<close> put
  there; a key of another type is equal to none of them.
\<close>

definition handlers_get :: "(int \<rightharpoonup> handler) \<Rightarrow> jsval \<Rightarrow> handler option" where
  "handlers_get m k = (case k of JNum n \<Rightarrow> m n | _ \<Rightarrow> None)"

definition handlers_delete :: "(int \<rightharpoonup> handler) \<Rightarrow> jsval \<Rightarrow> (int \<rightharpoonup> handler)" where
  "handlers_delete m k = (case k of JNum n \<Rightarrow> m(n := None) | _ \<Rightarrow> m)"

section \<open>The event emitter\<close>

definition on :: "string \<Rightarrow> nat \<Rightarrow> client \<Rightarrow> client" where
  "on event callback s =
     s\<lparr>eventListeners := (eventListeners s)
        (event \<mapsto> (case eventListeners s event of None \<Rightarrow> [] | Some cbs \<Rightarrow> cbs) @ [callback])\<rparr>"

text \<open>
  A listener is the application's code: it is taken to return, and not to call back into
  the client before it does.
\<close>

definition emit :: "string \<Rightarrow> jsval \<Rightarrow> client \<Rightarrow> client" where
  "emit event data s =
     (case eventListeners s event of
        None \<Rightarrow> s
      | Some cbs \<Rightarrow> s\<lparr>trace := trace s @ map (\<lambda>callback. Callback callback data) cbs\<rparr>)"

section \<open>Sending\<close>

text \<open>
  \<open>sendMessage\<close> up to its \<open>await\<close>: the \<open>fetch\<close> is issued, and the number of
  the call stands for the promise returned. Nobody catches its rejection unless the
  caller attaches a \<open>catch\<close>.
\<close>

definition endpoint :: "client \<Rightarrow> string" where
  "endpoint s =
     (case messageEndpoint s of
        None \<Rightarrow> serverUrl s @ ''/message''
      | Some e \<Rightarrow> if e = [] then serverUrl s @ ''/message'' else e)"

definition sendMessage :: "jsval \<Rightarrow> client \<Rightarrow> nat \<times> client" where
  "sendMessage message s =
     (nextFetch s,
      s\<lparr>trace := trace s @ [Fetch (nextFetch s) (endpoint s) message],
        sends := (sends s)(nextFetch s \<mapsto> Uncaught),
        nextFetch := Suc (nextFetch s)\<rparr>)"

definition sendNotification :: "jsval \<Rightarrow> client \<Rightarrow> client" where
  "sendNotification notification s =
     (if nullish notification then s
      else snd (sendMessage
        (JObj [(''jsonrpc'', JStr ''2.0''),
               (''method'', field notification ''method''),
               (''params'', or_else (field notification ''params'') (JObj []))]) s))"

definition sendRequest :: "jsval \<Rightarrow> int option \<Rightarrow> client \<Rightarrow> nat \<times> client" where
  "sendRequest request timeout s =
     (let timeoutMs = (case timeout of None \<Rightarrow> 30000 | Some ms \<Rightarrow> ms);
          p = nextPromise s;
          id = nextRequestId s;
          s1 = s\<lparr>nextPromise := Suc p, nextRequestId := js_incr id\<rparr>
      in if nullish request then (p, reject p TypeError s1)
         else
           let jsonRpcRequest =
                 JObj [(''jsonrpc'', JStr ''2.0''),
                       (''id'', JNum id),
                       (''method'', field request ''method''),
                       (''params'', or_else (field request ''params'') (JObj []))];
               (timeoutId, s2) = setTimeout \<lparr>t_id = id, t_promise = p, t_timeoutMs = timeoutMs\<rparr> s1;
               s3 = s2\<lparr>messageHandlers :=
                         (messageHandlers s2)(id \<mapsto> \<lparr>h_timeoutId = timeoutId, h_promise = p\<rparr>)\<rparr>;
               (f, s4) = sendMessage jsonRpcRequest s3
           in (p, s4\<lparr>sends := (sends s4)(f \<mapsto> SendRequestCatch id timeoutId p)\<rparr>))"

text \<open>The callback of the timer \<open>sendRequest\<close> sets.\<close>

definition timer_fires :: "nat \<Rightarrow> client \<Rightarrow> client" where
  "timer_fires t s =
     (case timers s t of
        None \<Rightarrow> s
      | Some c \<Rightarrow>
          reject (t_promise c) (TimeoutError (t_timeoutMs c))
            (s\<lparr>timers := (timers s)(t := None),
               messageHandlers := (messageHandlers s)(t_id c := None)\<rparr>))"

text \<open>
  The rest of \<open>sendMessage\<close>, when its \<open>fetch\<close> settles: a rejection, or a response
  that is not \<open>ok\<close> (a status outside 200 to 299), is logged and thrown again, to the
  \<open>catch\<close> of \<open>sendRequest\<close> if that was the caller.
\<close>

datatype fetch_result = Rejects | Responds int string

fun send_failure :: "fetch_result \<Rightarrow> js_error option" where
  "send_failure Rejects = Some FetchError"
| "send_failure (Responds status statusText) =
     (if 200 \<le> status \<and> status \<le> 299 then None else Some (HttpError status statusText))"

fun run_catch :: "send_catch \<Rightarrow> js_error \<Rightarrow> client \<Rightarrow> client" where
  "run_catch Uncaught e s = s"
| "run_catch (SendRequestCatch rid timeoutId p) e s =
     reject p e ((clearTimeout timeoutId s)\<lparr>messageHandlers := (messageHandlers s)(rid := None)\<rparr>)"

definition fetch_settles :: "nat \<Rightarrow> fetch_result \<Rightarrow> client \<Rightarrow> client" where
  "fetch_settles f r s =
     (case sends s f of
        None \<Rightarrow> s
      | Some c \<Rightarrow>
          (let s1 = s\<lparr>sends := (sends s)(f := None)\<rparr> in
           case send_failure r of
             None \<Rightarrow> s1
           | Some e \<Rightarrow> run_catch c e (console Err ''Error sending message:'' s1)))"

section \<open>Receiving\<close>

text \<open>
  The handler \<open>sendRequest\<close> stores for a request, called with the response. The
  text of the error is built before \<open>reject\<close> is called, so a code or message that
  does not convert to a string ends the handler there, after the timer is cleared.
\<close>

definition call_handler :: "handler \<Rightarrow> jsval \<Rightarrow> client \<Rightarrow> completion" where
  "call_handler h response s =
     (let s1 = clearTimeout (h_timeoutId h) s;
          error = field response ''error''
      in if truthy error then
           (if to_string_ok (field error ''code'') \<and> to_string_ok (field error ''message'')
            then (None, reject (h_promise h)
                          (RpcError (field error ''code'') (field error ''message'')) s1)
            else (Some TypeError, s1))
         else (None, resolve (h_promise h) (field response ''result'') s1))"

definition handleNotification :: "jsval \<Rightarrow> client \<Rightarrow> completion" where
  "handleNotification notification s =
     (if nullish notification then (Some TypeError, s)
      else
        let method = field notification ''method'';
            params = field notification ''params''
        in if method = JStr ''notifications/resources/list_changed'' then
             (None, emit ''resourceListChanged'' JUndefined
                      (console Log ''Resource list changed'' s))
           else if method = JStr ''notifications/resources/updated'' then
             (if nullish params \<or> \<not> to_string_ok (field params ''uri'')
              then (Some TypeError, s)
              else (None, emit ''resourceUpdated'' params (console Log ''Resource updated: '' s)))
           else if method = JStr ''notifications/tools/list_changed'' then
             (None, emit ''toolListChanged'' JUndefined (console Log ''Tool list changed'' s))
           else if method = JStr ''notifications/prompts/list_changed'' then
             (None, emit ''promptListChanged'' JUndefined (console Log ''Prompt list changed'' s))
           else if method = JStr ''notifications/progress'' then
             (if nullish params
                 \<or> \<not> to_string_ok (field params ''progress'')
                 \<or> \<not> to_string_ok (or_else (field params ''total'') (JStr ''?''))
                 \<or> \<not> to_string_ok (or_else (field params ''message'') (JStr []))
              then (Some TypeError, s)
              else (None, emit ''progress''
                            (JObj [(''token'', field params ''progressToken''),
                                   (''progress'', field params ''progress''),
                                   (''total'', field params ''total''),
                                   (''message'', field params ''message'')])
                            (console Log ''Progress: '' s)))
           else if method = JStr ''notifications/message'' then
             (if nullish params \<or> \<not> to_string_ok (field params ''level'')
              then (Some TypeError, s)
              else (None, emit ''message''
                            (JObj [(''level'', field params ''level''),
                                   (''data'', field params ''data'')])
                            (console Log ''Server message ['' s)))
           else (None, console Log ''Received notification:'' s))"

definition handleServerRequest :: "jsval \<Rightarrow> client \<Rightarrow> completion" where
  "handleServerRequest request s =
     (if nullish request then (Some TypeError, s)
      else
        let method = field request ''method'' in
        if method = JStr ''ping'' then
          (None, snd (sendMessage
             (JObj [(''jsonrpc'', JStr ''2.0''),
                    (''id'', field request ''id''),
                    (''result'', JObj [])]) s))
        else if method = JStr ''sampling/createMessage'' then
          (None, emit ''samplingRequest'' request
                   (console Log ''Server requested LLM sampling:'' s))
        else if method = JStr ''roots/list'' then
          (None, snd (sendMessage
             (JObj [(''jsonrpc'', JStr ''2.0''),
                    (''id'', field request ''id''),
                    (''result'', JObj [(''roots'', JArr [])])])
             (emit ''rootsListRequest'' request
                (console Log ''Server requested roots list'' s))))
        else if \<not> to_string_ok method then (Some TypeError, s)
        else
          (None, snd (sendMessage
             (JObj [(''jsonrpc'', JStr ''2.0''),
                    (''id'', field request ''id''),
                    (''error'', JObj [(''code'', JNum (- 32601)),
                                      (''message'', JStr ''Method not found'')])])
             (console Warn ''Unsupported server request method: '' s))))"

text \<open>The body of \<open>handleIncomingMessage\<close> for a message that is not an array.\<close>

definition dispatch :: "jsval \<Rightarrow> client \<Rightarrow> completion" where
  "dispatch message s =
     (if nullish message then (Some TypeError, s)
      else
        let method = field message ''method'';
            id = field message ''id''
        in if truthy method \<and> \<not> truthy id then handleNotification message s
           else if truthy id
                   \<and> (truthy (field message ''result'') \<or> truthy (field message ''error'')) then
             (case handlers_get (messageHandlers s) id of
                Some h \<Rightarrow>
                  (case call_handler h message s of
                     (Some e, s') \<Rightarrow> (Some e, s')
                   | (None, s') \<Rightarrow>
                       (None, s'\<lparr>messageHandlers := handlers_delete (messageHandlers s') id\<rparr>))
              | None \<Rightarrow> (None, console Warn ''Received response for unknown request ID:'' s))
           else if truthy method \<and> truthy id then handleServerRequest message s
           else (None, console Warn ''Unhandled message:'' s))"

text \<open>
  \<open>handleIncomingMessage\<close>, and the \<open>forEach\<close> over a batch: an exception in one
  element leaves \<open>forEach\<close>, and the elements after it are not visited.
\<close>

fun handleIncomingMessage :: "jsval \<Rightarrow> client \<Rightarrow> completion"
  and forEach :: "jsval list \<Rightarrow> client \<Rightarrow> completion" where
  "handleIncomingMessage (JArr msgs) s = forEach msgs s"
| "handleIncomingMessage message s = dispatch message s"
| "forEach [] s = (None, s)"
| "forEach (msg # msgs) s =
     (case handleIncomingMessage msg s of
        (Some e, s') \<Rightarrow> (Some e, s')
      | (None, s') \<Rightarrow> forEach msgs s')"

text \<open>
  The listener of the stream's \<open>message\<close> event. \<open>None\<close> is data that
  \<open>JSON.parse\<close> refuses. The \<open>catch\<close> covers the handling of the message too.
\<close>

definition message_event :: "jsval option \<Rightarrow> client \<Rightarrow> client" where
  "message_event data s =
     (case data of
        None \<Rightarrow> console Err ''Error parsing message:'' s
      | Some message \<Rightarrow>
          (case handleIncomingMessage message s of
             (None, s') \<Rightarrow> s'
           | (Some e, s') \<Rightarrow> console Err ''Error parsing message:'' s'))"

section \<open>The operations of the application\<close>

text \<open>
  Of \<open>connect\<close>, what it leaves in the client: the \<open>EventSource\<close> it opens,
  the listener of the \<open>endpoint\<close> event, which records the address and starts
  \<open>initialize\<close>, and what it does with the result of \<open>initialize\<close>. The
  promise \<open>connect\<close> returns and its error handlers are left out.
\<close>

definition connect_opens :: "client \<Rightarrow> client" where
  "connect_opens s = s\<lparr>eventSource := Some (serverUrl s @ ''/sse'')\<rparr>"

definition initialize :: "client \<Rightarrow> nat \<times> client" where
  "initialize s =
     sendRequest
       (JObj [(''method'', JStr ''initialize''),
              (''params'', JObj [(''protocolVersion'', JStr ''2025-03-26''),
                                 (''capabilities'', capabilities),
                                 (''clientInfo'', clientInfo)])])
       None s"

definition endpoint_event :: "string \<Rightarrow> client \<Rightarrow> nat \<times> client" where
  "endpoint_event data s =
     initialize (console Log ''Message endpoint:'' (s\<lparr>messageEndpoint := Some data\<rparr>))"

text \<open>\<open>initialize\<close> after its \<open>await\<close>, once the request has a result.\<close>

definition initialize_resumes :: "jsval \<Rightarrow> client \<Rightarrow> completion" where
  "initialize_resumes initializeResult s =
     (if nullish initializeResult then (Some TypeError, s)
      else
        (None,
         (sendNotification (JObj [(''method'', JStr ''notifications/initialized'')])
            (console Log ''Server capabilities:'' (console Log ''Server info:'' s)))
         \<lparr>connected := True\<rparr>))"

definition connect_then :: "jsval \<Rightarrow> client \<Rightarrow> client" where
  "connect_then result s =
     emit ''connect'' result (s\<lparr>serverCapabilities := field result ''capabilities''\<rparr>)"

definition disconnect :: "client \<Rightarrow> client" where
  "disconnect s =
     (case eventSource s of
        None \<Rightarrow> s
      | Some es \<Rightarrow>
          emit ''disconnect'' JUndefined
            (console Log ''Disconnected from MCP server''
               (s\<lparr>trace := trace s @ [Close es], eventSource := None, connected := False\<rparr>)))"

definition listTools :: "client \<Rightarrow> async \<times> client" where
  "listTools s =
     (if \<not> connected s then (Throws (JsError ''Not connected to MCP server''), s)
      else
        let (p, s') = sendRequest (JObj [(''method'', JStr ''tools/list'')]) None s
        in (Awaits p, s'))"

text \<open>
  \<open>Date.now().toString()\<close>: the clock is a count of milliseconds, printed in decimal
  digits.
\<close>

definition digit :: "nat \<Rightarrow> char" where
  "digit d = ''0123456789'' ! d"

fun decimal :: "nat \<Rightarrow> string" where
  "decimal n = (if n < 10 then [digit n] else decimal (n div 10) @ [digit (n mod 10)])"

declare decimal.simps [simp del]

text \<open>
  \<open>callTool(name, args = {}, withProgress = true)\<close>: an argument that is left out
  arrives as \<open>undefined\<close> and takes its default. \<open>now\<close> is what \<open>Date.now()\<close>
  returns during the call.
\<close>

definition callTool :: "jsval \<Rightarrow> jsval \<Rightarrow> jsval \<Rightarrow> nat \<Rightarrow> client \<Rightarrow> async \<times> client" where
  "callTool name args0 withProgress0 now s =
     (let args = (if args0 = JUndefined then JObj [] else args0);
          withProgress = (if withProgress0 = JUndefined then JBool True else withProgress0)
      in if \<not> connected s then (Throws (JsError ''Not connected to MCP server''), s)
         else
           let params = [(''name'', name), (''arguments'', args)]
                        @ (if truthy withProgress
                           then [(''_meta'', JObj [(''progressToken'', JStr (decimal now))])]
                           else []);
               (p, s') = sendRequest (JObj [(''method'', JStr ''tools/call''),
                                            (''params'', JObj params)]) None s
           in (Awaits p, s'))"

section \<open>The event loop\<close>

text \<open>
  One task at a time runs to its end: a call of the application, an event of the
  stream, a timer, or the settling of a \<open>fetch\<close>. The loop keeps the state and drops
  what a call returns.
\<close>

datatype event =
    CallOn string nat
  | CallConnect
  | CallDisconnect
  | CallListTools
  | CallTool jsval jsval jsval nat
  | CallSendRequest jsval "int option"
  | EndpointEvent string
  | MessageEvent "jsval option"
  | InitializeResumes jsval
  | TimerFires nat
  | FetchSettles nat fetch_result

fun step :: "event \<Rightarrow> client \<Rightarrow> client" where
  "step (CallOn event callback) s = on event callback s"
| "step CallConnect s = connect_opens s"
| "step CallDisconnect s = disconnect s"
| "step CallListTools s = snd (listTools s)"
| "step (CallTool name args withProgress now) s = snd (callTool name args withProgress now s)"
| "step (CallSendRequest request timeout) s = snd (sendRequest request timeout s)"
| "step (EndpointEvent data) s = snd (endpoint_event data s)"
| "step (MessageEvent data) s = message_event data s"
| "step (InitializeResumes result) s =
     (case initialize_resumes result s of
        (None, s') \<Rightarrow> connect_then result s'
      | (Some e, s') \<Rightarrow> s')"
| "step (TimerFires t) s = timer_fires t s"
| "step (FetchSettles f r) s = fetch_settles f r s"

definition run :: "event list \<Rightarrow> client \<Rightarrow> client" where
  "run evs s = fold step evs s"

text \<open>
  A session to try things on: a client of \<open>http://localhost:8080\<close> after
  \<open>connect\<close>, the endpoint event, the response to \<open>initialize\<close> and the rest
  of \<open>initialize\<close>.
\<close>

definition handshake :: "event list" where
  "handshake =
     [CallConnect,
      EndpointEvent ''http://localhost:8080/message?sessionId=1'',
      MessageEvent (Some (JObj [(''jsonrpc'', JStr ''2.0''), (''id'', JNum 1),
                                (''result'', JObj [(''capabilities'', JObj [])])])),
      InitializeResumes (JObj [(''capabilities'', JObj [])])]"

definition session :: client where
  "session = run handshake (constructor ''http://localhost:8080'')"

text \<open>
  Two requests to try things on: both under way, with ids 1 and 2, timers 1 and 2 and
  promises 0 and 1; and both settled, when a response has resolved the first and the
  timer of the second has fired.
\<close>

definition result_for :: "int \<Rightarrow> jsval" where
  "result_for rid =
     JObj [(''jsonrpc'', JStr ''2.0''), (''id'', JNum rid),
           (''result'', JObj [(''tools'', JArr [])])]"

definition two_requests :: "event list" where
  "two_requests =
     [CallSendRequest (JObj [(''method'', JStr ''tools/list'')]) None,
      CallSendRequest (JObj [(''method'', JStr ''tools/call'')]) (Some 5000)]"

definition both_waiting :: client where
  "both_waiting = run two_requests (constructor ''http://localhost:8080'')"

definition both_settled :: client where
  "both_settled =
     run (two_requests @ [MessageEvent (Some (result_for 1)), TimerFires 2])
       (constructor ''http://localhost:8080'')"

section \<open>What a run shows\<close>

text \<open>
  A promise is settled by the first \<open>resolve\<close> or \<open>reject\<close> called on it. The
  handler of a request settles its promise with the response (a result, or the error the
  server sent); the timer settles it with the timeout error.
\<close>

fun is_settle :: "effect \<Rightarrow> bool" where
  "is_settle (Resolve q v) = True"
| "is_settle (Reject q e) = True"
| "is_settle e = False"

fun settles :: "nat \<Rightarrow> effect \<Rightarrow> bool" where
  "settles p (Resolve q v) = (q = p)"
| "settles p (Reject q e) = (q = p)"
| "settles p e = False"

fun by_response :: "nat \<Rightarrow> effect \<Rightarrow> bool" where
  "by_response p (Resolve q v) = (q = p)"
| "by_response p (Reject q (RpcError c m)) = (q = p)"
| "by_response p e = False"

fun by_timeout :: "nat \<Rightarrow> effect \<Rightarrow> bool" where
  "by_timeout p (Reject q (TimeoutError ms)) = (q = p)"
| "by_timeout p e = False"

text \<open>
  The third way a promise of \<open>sendRequest\<close> is settled, by \<open>sendRequest\<close> itself: with
  the exception of its executor (a request that is \<open>null\<close> or \<open>undefined\<close>), or with
  the error of its send.
\<close>

fun by_failure :: "nat \<Rightarrow> effect \<Rightarrow> bool" where
  "by_failure p (Reject q TypeError) = (q = p)"
| "by_failure p (Reject q FetchError) = (q = p)"
| "by_failure p (Reject q (HttpError status txt)) = (q = p)"
| "by_failure p e = False"

definition outcome :: "nat \<Rightarrow> client \<Rightarrow> effect option" where
  "outcome p s = find (settles p) (trace s)"

definition responses :: "nat \<Rightarrow> client \<Rightarrow> nat" where
  "responses p s = length (filter (by_response p) (trace s))"

definition timeouts :: "nat \<Rightarrow> client \<Rightarrow> nat" where
  "timeouts p s = length (filter (by_timeout p) (trace s))"

text \<open>How often a list of effects settles a promise by a response or a timeout.\<close>

definition counted :: "nat \<Rightarrow> effect list \<Rightarrow> nat" where
  "counted p es = length (filter (by_response p) es) + length (filter (by_timeout p) es)"

text \<open>The \<open>fetch\<close> calls of a trace.\<close>

fun is_fetch :: "effect \<Rightarrow> bool" where
  "is_fetch (Fetch f url body) = True"
| "is_fetch e = False"

text \<open>
  The closures alive in a state, each as the request id, the timer and the promise it
  holds: the handlers in \<open>messageHandlers\<close>, the timers that have neither fired nor
  been cleared, and the \<open>catch\<close> of every send of \<open>sendRequest\<close> still under way.
\<close>

definition has_handler :: "nat \<Rightarrow> client \<Rightarrow> bool" where
  "has_handler p s = (\<exists>rid h. messageHandlers s rid = Some h \<and> h_promise h = p)"

definition has_timer :: "nat \<Rightarrow> client \<Rightarrow> bool" where
  "has_timer p s = (\<exists>t c. timers s t = Some c \<and> t_promise c = p)"

definition catches :: "client \<Rightarrow> (int \<times> nat \<times> nat) set" where
  "catches s = {(rid, t, p). \<exists>f. sends s f = Some (SendRequestCatch rid t p)}"

definition closures :: "client \<Rightarrow> (int \<times> nat \<times> nat) set" where
  "closures s =
     {(rid, t, p). \<exists>h. messageHandlers s rid = Some h \<and> h_timeoutId h = t \<and> h_promise h = p}
     \<union> {(rid, t, p). \<exists>c. timers s t = Some c \<and> t_id c = rid \<and> t_promise c = p}
     \<union> catches s"

text \<open>
  Every closure is of a promise and a timer already made, and the closures of one
  promise agree on its request id and its timer.
\<close>

definition closures_ok :: "client \<Rightarrow> bool" where
  "closures_ok s \<longleftrightarrow>
     (\<forall>rid t p. (rid, t, p) \<in> closures s \<longrightarrow> p < nextPromise s \<and> t < nextTimer s) \<and>
     (\<forall>rid t p rid' t'. (rid, t, p) \<in> closures s \<and> (rid', t', p) \<in> closures s
        \<longrightarrow> rid = rid' \<and> t = t')"

text \<open>
  Every promise settled is one already made; none is settled twice by a response or a
  timeout; and one that was settled so has no handler and no timer left.
\<close>

definition settled_ok :: "client \<Rightarrow> bool" where
  "settled_ok s \<longleftrightarrow>
     (\<forall>p e. e \<in> set (trace s) \<and> settles p e \<longrightarrow> p < nextPromise s) \<and>
     (\<forall>p. responses p s + timeouts p s \<le> 1) \<and>
     (\<forall>p. 0 < responses p s + timeouts p s \<longrightarrow> \<not> has_handler p s \<and> \<not> has_timer p s)"

text \<open>A promise that no handler and no timer can settle any more.\<close>

definition over :: "nat \<Rightarrow> client \<Rightarrow> bool" where
  "over p s \<longleftrightarrow> p < nextPromise s \<and> \<not> has_handler p s \<and> \<not> has_timer p s"

text \<open>The ids in \<open>messageHandlers\<close> are ids the counter has passed.\<close>

definition ids_fresh :: "client \<Rightarrow> bool" where
  "ids_fresh s \<longleftrightarrow>
     1 \<le> nextRequestId s \<and> nextRequestId s \<le> 9007199254740992 \<and>
     (nextRequestId s < 9007199254740992
        \<longrightarrow> (\<forall>rid h. messageHandlers s rid = Some h \<longrightarrow> rid < nextRequestId s))"

text \<open>
  A timer belongs to one promise, and so does a request id while the counter is below
  \<open>2^53\<close>, where every id in use is one the counter has passed.
\<close>

definition keys_ok :: "client \<Rightarrow> bool" where
  "keys_ok s \<longleftrightarrow>
     (\<forall>rid t p rid' p'. (rid, t, p) \<in> closures s \<and> (rid', t, p') \<in> closures s \<longrightarrow> p' = p) \<and>
     (nextRequestId s < 9007199254740992 \<longrightarrow>
        (\<forall>rid t p. (rid, t, p) \<in> closures s \<longrightarrow> rid < nextRequestId s) \<and>
        (\<forall>rid t p t' p'. (rid, t, p) \<in> closures s \<and> (rid, t', p') \<in> closures s \<longrightarrow> p' = p))"

text \<open>
  Whatever settled a promise was a response, a timeout or a failure of \<open>sendRequest\<close>,
  and left the promise over; and a promise that a response or a timeout has settled has
  that as its outcome.
\<close>

definition outcomes_ok :: "client \<Rightarrow> bool" where
  "outcomes_ok s \<longleftrightarrow>
     (\<forall>p e. e \<in> set (trace s) \<and> settles p e \<longrightarrow>
        over p s \<and> (by_response p e \<or> by_timeout p e \<or> by_failure p e)) \<and>
     (\<forall>p. 0 < responses p s + timeouts p s \<longrightarrow>
        (\<exists>e. outcome p s = Some e \<and> (by_response p e \<or> by_timeout p e)))"

text \<open>
  While the counter is below \<open>2^53\<close>, a promise that nothing has settled still has its
  handler or its timer.
\<close>

definition live_ok :: "client \<Rightarrow> bool" where
  "live_ok s \<longleftrightarrow>
     (nextRequestId s < 9007199254740992 \<longrightarrow>
        (\<forall>p. p < nextPromise s \<longrightarrow> has_handler p s \<or> has_timer p s \<or> outcome p s \<noteq> None))"

text \<open>
  A step that leaves the handlers, the timers, the counters and the settling of promises
  as they were, and adds no \<open>catch\<close>.
\<close>

definition quiet :: "client \<Rightarrow> client \<Rightarrow> bool" where
  "quiet s s' \<longleftrightarrow>
     messageHandlers s' = messageHandlers s \<and> timers s' = timers s \<and>
     catches s' \<subseteq> catches s \<and>
     nextPromise s' = nextPromise s \<and> nextTimer s' = nextTimer s \<and>
     nextRequestId s' = nextRequestId s \<and>
     filter is_settle (trace s') = filter is_settle (trace s)"

text \<open>A step that sends nothing.\<close>

definition silent :: "client \<Rightarrow> client \<Rightarrow> bool" where
  "silent s s' \<longleftrightarrow>
     filter is_fetch (trace s') = filter is_fetch (trace s) \<and>
     nextFetch s' = nextFetch s \<and> sends s' = sends s"

text \<open>
  A message that is none of the shapes \<open>handleIncomingMessage\<close> knows, and is not
  \<open>null\<close>: no array, no method, and not an id with a result or an error.
\<close>

fun is_array :: "jsval \<Rightarrow> bool" where
  "is_array (JArr xs) = True"
| "is_array v = False"

definition unhandled :: "jsval \<Rightarrow> bool" where
  "unhandled message \<longleftrightarrow>
     \<not> nullish message \<and> \<not> is_array message \<and>
     \<not> truthy (field message ''method'') \<and>
     \<not> (truthy (field message ''id'')
        \<and> (truthy (field message ''result'') \<or> truthy (field message ''error'')))"



text \<open>
  The steps that matter to the handlers, the timers and the promises: a quiet one, a
  request registered, a handler called with a response (to its end, or to the exception
  that ends it), a timer fired, a \<open>fetch\<close> settled.
\<close>

inductive move :: "client \<Rightarrow> client \<Rightarrow> bool" where
  move_quiet: "quiet s s' \<Longrightarrow> move s s'"
| move_request: "move s (snd (sendRequest request timeout s))"
| move_handled:
    "messageHandlers s rid = Some h \<Longrightarrow> call_handler h response s = (None, s')
     \<Longrightarrow> move s (s'\<lparr>messageHandlers := (messageHandlers s')(rid := None)\<rparr>)"
| move_threw:
    "messageHandlers s rid = Some h \<Longrightarrow> call_handler h response s = (Some e, s')
     \<Longrightarrow> move s s'"
| move_timer: "move s (timer_fires t s)"
| move_fetch: "move s (fetch_settles f r s)"

section \<open>Reading a message\<close>

lemma handleIncomingMessage_dispatch:
  "\<not> is_array message \<Longrightarrow> handleIncomingMessage message s = dispatch message s"
  by (cases message) simp_all

section \<open>The example session\<close>

lemmas run_defs =
  run_def constructor_def connect_opens_def endpoint_event_def
  initialize_def sendRequest_def setTimeout_def sendMessage_def js_incr_def console_def
  message_event_def dispatch_def handlers_get_def handlers_delete_def call_handler_def
  clearTimeout_def resolve_def reject_def initialize_resumes_def sendNotification_def or_else_def
  capabilities_def clientInfo_def connect_then_def emit_def endpoint_def Let_def

lemmas loop_defs =
  run_defs fetch_settles_def timer_fires_def responses_def timeouts_def outcome_def

lemma session_value:
  "session =
     \<lparr>serverUrl = ''http://localhost:8080'',
      eventSource = Some ''http://localhost:8080/sse'',
      messageEndpoint = Some ''http://localhost:8080/message?sessionId=1'',
      messageHandlers = Map.empty, nextRequestId = 2, connected = True,
      eventListeners = Map.empty, serverCapabilities = JObj [],
      timers = Map.empty, nextTimer = 2, nextPromise = 1,
      sends = [0 \<mapsto> SendRequestCatch 1 1 0, 1 \<mapsto> Uncaught], nextFetch = 2,
      trace =
        [Console Log ''Message endpoint:'',
         Fetch 0 ''http://localhost:8080/message?sessionId=1''
           (JObj [(''jsonrpc'', JStr ''2.0''), (''id'', JNum 1),
                  (''method'', JStr ''initialize''),
                  (''params'',
                   JObj [(''protocolVersion'', JStr ''2025-03-26''),
                         (''capabilities'', JObj [(''experimental'', JObj [])]),
                         (''clientInfo'',
                          JObj [(''name'', JStr ''MCPLite''), (''version'', JStr ''0.1.0'')])])]),
         Resolve 0 (JObj [(''capabilities'', JObj [])]),
         Console Log ''Server info:'', Console Log ''Server capabilities:'',
         Fetch 1 ''http://localhost:8080/message?sessionId=1''
           (JObj [(''jsonrpc'', JStr ''2.0''),
                  (''method'', JStr ''notifications/initialized''),
                  (''params'', JObj [])])]\<rparr>"
  by (simp add: session_def handshake_def run_defs)

section \<open>Sending a request\<close>

lemma endpoint_simps [simp]:
  "endpoint (s\<lparr>trace := tr\<rparr>) = endpoint s"
  "endpoint (s\<lparr>sends := sd\<rparr>) = endpoint s"
  "endpoint (s\<lparr>nextFetch := nf\<rparr>) = endpoint s"
  "endpoint (s\<lparr>messageHandlers := mh\<rparr>) = endpoint s"
  "endpoint (s\<lparr>timers := tm\<rparr>) = endpoint s"
  "endpoint (s\<lparr>nextTimer := nt\<rparr>) = endpoint s"
  "endpoint (s\<lparr>nextPromise := np\<rparr>) = endpoint s"
  "endpoint (s\<lparr>nextRequestId := nr\<rparr>) = endpoint s"
  by (simp_all add: endpoint_def split: option.splits)

lemma sendRequest_nullish:
  "nullish request \<Longrightarrow>
   snd (sendRequest request timeout s)
     = reject (nextPromise s) TypeError
         (s\<lparr>nextPromise := Suc (nextPromise s), nextRequestId := js_incr (nextRequestId s)\<rparr>)"
  by (simp add: sendRequest_def Let_def)

lemma sendRequest_fields:
  assumes "\<not> nullish request" and "s' = snd (sendRequest request timeout s)"
  shows "messageHandlers s'
           = (messageHandlers s)(nextRequestId s \<mapsto>
                \<lparr>h_timeoutId = nextTimer s, h_promise = nextPromise s\<rparr>)"
    and "timers s'
           = (timers s)(nextTimer s \<mapsto>
                \<lparr>t_id = nextRequestId s, t_promise = nextPromise s,
                 t_timeoutMs = (case timeout of None \<Rightarrow> 30000 | Some ms \<Rightarrow> ms)\<rparr>)"
    and "sends s'
           = (sends s)(nextFetch s \<mapsto>
                SendRequestCatch (nextRequestId s) (nextTimer s) (nextPromise s))"
    and "nextPromise s' = Suc (nextPromise s)"
    and "nextTimer s' = Suc (nextTimer s)"
    and "nextRequestId s' = js_incr (nextRequestId s)"
    and "nextFetch s' = Suc (nextFetch s)"
    and "trace s'
           = trace s @ [Fetch (nextFetch s) (endpoint s)
                          (JObj [(''jsonrpc'', JStr ''2.0''),
                                 (''id'', JNum (nextRequestId s)),
                                 (''method'', field request ''method''),
                                 (''params'', or_else (field request ''params'') (JObj []))])]"
  using assms
  by (simp_all add: sendRequest_def setTimeout_def sendMessage_def Let_def)

lemma sendRequest_trace:
  "\<not> nullish request \<Longrightarrow>
   trace (snd (sendRequest request timeout s))
     = trace s @ [Fetch (nextFetch s) (endpoint s)
                    (JObj [(''jsonrpc'', JStr ''2.0''),
                           (''id'', JNum (nextRequestId s)),
                           (''method'', field request ''method''),
                           (''params'', or_else (field request ''params'') (JObj []))])]"
  by (rule sendRequest_fields(8)) simp_all

lemma callTool_connected:
  "connected s \<Longrightarrow>
   snd (callTool name args withProgress now s)
     = snd (sendRequest
              (JObj [(''method'', JStr ''tools/call''),
                     (''params'',
                      JObj ([(''name'', name),
                             (''arguments'', if args = JUndefined then JObj [] else args)]
                            @ (if withProgress = JUndefined \<or> truthy withProgress
                               then [(''_meta'', JObj [(''progressToken'', JStr (decimal now))])]
                               else [])))])
              None s)"
  by (simp add: callTool_def Let_def case_prod_beta)

lemma sendRequest_catch:
  "\<not> nullish request \<Longrightarrow>
   sends (snd (sendRequest request timeout s)) (nextFetch s)
     = Some (SendRequestCatch (nextRequestId s) (nextTimer s) (nextPromise s))"
  by (simp add: sendRequest_fields(3) [OF _ refl])


lemma sendRequest_connected:
  "connected (snd (sendRequest request timeout s)) = connected s"
  by (simp add: sendRequest_def setTimeout_def sendMessage_def reject_def Let_def)

lemma sendRequest_endpoint:
  "endpoint (snd (sendRequest request timeout s)) = endpoint s"
  by (simp add: sendRequest_def setTimeout_def sendMessage_def reject_def Let_def)

section \<open>The clock in decimal digits\<close>

lemma digit_inj:
  assumes "a < 10" and "b < 10" and "digit a = digit b"
  shows "a = b"
proof -
  have "distinct ''0123456789''" by simp
  moreover have "a < length ''0123456789''" "b < length ''0123456789''"
    using assms by simp_all
  ultimately show ?thesis
    using assms(3) unfolding digit_def by (simp only: nth_eq_iff_index_eq)
qed

lemma decimal_not_Nil: "decimal n \<noteq> []"
  by (subst decimal.simps) simp

lemma decimal_inj: "decimal n = decimal m \<Longrightarrow> n = m"
proof (induction n arbitrary: m rule: decimal.induct)
  case (1 n)
  show ?case
  proof (cases "n < 10")
    case True
    show ?thesis
    proof (cases "m < 10")
      case mt: True
      from 1(2) True mt have "digit n = digit m"
        by (subst (asm) decimal.simps, subst (asm) (2) decimal.simps) simp
      with True mt show ?thesis by (simp add: digit_inj)
    next
      case mf: False
      from 1(2) True mf have "[digit n] = decimal (m div 10) @ [digit (m mod 10)]"
        by (subst (asm) decimal.simps, subst (asm) (2) decimal.simps) simp
      then have "decimal (m div 10) = []" by simp
      with decimal_not_Nil show ?thesis by blast
    qed
  next
    case False
    show ?thesis
    proof (cases "m < 10")
      case mt: True
      from 1(2) False mt have "decimal (n div 10) @ [digit (n mod 10)] = [digit m]"
        by (subst (asm) decimal.simps, subst (asm) (2) decimal.simps) simp
      then have "decimal (n div 10) = []" by simp
      with decimal_not_Nil show ?thesis by blast
    next
      case mf: False
      from 1(2) False mf
      have "decimal (n div 10) @ [digit (n mod 10)] = decimal (m div 10) @ [digit (m mod 10)]"
        by (subst (asm) decimal.simps, subst (asm) (2) decimal.simps) simp
      then have a: "decimal (n div 10) = decimal (m div 10)"
        and b: "digit (n mod 10) = digit (m mod 10)"
        by simp_all
      from 1(1) [OF False a] have "n div 10 = m div 10" .
      moreover from b have "n mod 10 = m mod 10"
        by (simp add: digit_inj)
      ultimately show ?thesis by (metis div_mult_mod_eq)
    qed
  qed
qed

section \<open>Quiet steps\<close>

lemma quiet_refl: "quiet s s"
  by (simp add: quiet_def)

lemma quiet_trans: "quiet s s' \<Longrightarrow> quiet s' s'' \<Longrightarrow> quiet s s''"
  by (auto simp: quiet_def)

lemma filter_settle_callbacks: "filter is_settle (map (\<lambda>callback. Callback callback d) cbs) = []"
  by (induction cbs) simp_all

lemma catches_trace [simp]: "catches (s\<lparr>trace := tr\<rparr>) = catches s"
  by (simp add: catches_def)

lemma quiet_console: "quiet s (console l txt s)"
  by (simp add: quiet_def console_def)

lemma quiet_emit: "quiet s (emit event d s)"
  by (simp add: quiet_def emit_def filter_settle_callbacks split: option.splits)

lemma quiet_on: "quiet s (on event callback s)"
  by (simp add: quiet_def on_def catches_def)

lemma quiet_sendMessage: "quiet s (snd (sendMessage message s))"
  by (auto simp: quiet_def sendMessage_def catches_def split: if_splits)

lemma quiet_sendNotification: "quiet s (sendNotification n s)"
  by (simp add: sendNotification_def quiet_refl quiet_sendMessage)

lemma quiet_connect_opens: "quiet s (connect_opens s)"
  by (simp add: quiet_def connect_opens_def catches_def)

lemma quiet_connect_then: "quiet s (connect_then r s)"
proof -
  have "quiet s (s\<lparr>serverCapabilities := field r ''capabilities''\<rparr>)"
    by (simp add: quiet_def catches_def)
  then show ?thesis
    unfolding connect_then_def by (rule quiet_trans) (rule quiet_emit)
qed

lemma quiet_disconnect: "quiet s (disconnect s)"
proof (cases "eventSource s")
  case None
  then show ?thesis by (simp add: disconnect_def quiet_refl)
next
  case (Some es)
  have "quiet s (s\<lparr>trace := trace s @ [Close es], eventSource := None, connected := False\<rparr>)"
    by (simp add: quiet_def catches_def)
  then have "quiet s (console Log ''Disconnected from MCP server''
                (s\<lparr>trace := trace s @ [Close es], eventSource := None, connected := False\<rparr>))"
    by (rule quiet_trans) (rule quiet_console)
  then have "quiet s (emit ''disconnect'' JUndefined (console Log ''Disconnected from MCP server''
                (s\<lparr>trace := trace s @ [Close es], eventSource := None, connected := False\<rparr>)))"
    by (rule quiet_trans) (rule quiet_emit)
  with Some show ?thesis by (simp add: disconnect_def)
qed

lemma quiet_console_emit: "quiet s (emit event d (console l txt s))"
  by (rule quiet_trans [OF quiet_console quiet_emit])

lemma quiet_handleNotification: "quiet s (snd (handleNotification n s))"
  by (simp add: handleNotification_def Let_def quiet_refl quiet_console quiet_console_emit)

lemma quiet_console_sendMessage: "quiet s (snd (sendMessage m (console l txt s)))"
  by (rule quiet_trans [OF quiet_console quiet_sendMessage])

lemma quiet_handleServerRequest: "quiet s (snd (handleServerRequest r s))"
  by (simp add: handleServerRequest_def Let_def quiet_refl quiet_sendMessage quiet_console_emit
      quiet_console_sendMessage quiet_trans [OF quiet_console_emit quiet_sendMessage])

lemma quiet_initialize_resumes: "quiet s (snd (initialize_resumes r s))"
proof (cases "nullish r")
  case True
  then show ?thesis by (simp add: initialize_resumes_def quiet_refl)
next
  case False
  let ?s3 = "sendNotification (JObj [(''method'', JStr ''notifications/initialized'')])
            (console Log ''Server capabilities:'' (console Log ''Server info:'' s))"
  have "quiet s ?s3"
    by (rule quiet_trans [OF quiet_trans [OF quiet_console quiet_console] quiet_sendNotification])
  moreover have "quiet ?s3 (?s3\<lparr>connected := True\<rparr>)"
    by (simp add: quiet_def catches_def)
  ultimately have "quiet s (?s3\<lparr>connected := True\<rparr>)" by (rule quiet_trans)
  with False show ?thesis by (simp add: initialize_resumes_def)
qed

section \<open>Every step is a chain of moves\<close>

lemma moves_quiet: "quiet s s' \<Longrightarrow> move\<^sup>*\<^sup>* s s'"
  by (rule r_into_rtranclp) (rule move_quiet)

lemma dispatch_moves: "move\<^sup>*\<^sup>* s (snd (dispatch message s))"
proof -
  consider (c_null) "nullish message"
    | (c_notification) "\<not> nullish message" "truthy (field message ''method'')" "\<not> truthy (field message ''id'')"
    | (c_response) "\<not> nullish message" "\<not> (truthy (field message ''method'') \<and> \<not> truthy (field message ''id''))"
        "truthy (field message ''id'')
          \<and> (truthy (field message ''result'') \<or> truthy (field message ''error''))"
    | (c_request) "\<not> nullish message" "\<not> (truthy (field message ''method'') \<and> \<not> truthy (field message ''id''))"
        "\<not> (truthy (field message ''id'')
          \<and> (truthy (field message ''result'') \<or> truthy (field message ''error'')))"
        "truthy (field message ''method'') \<and> truthy (field message ''id'')"
    | (c_other) "\<not> nullish message" "\<not> (truthy (field message ''method'') \<and> \<not> truthy (field message ''id''))"
        "\<not> (truthy (field message ''id'')
          \<and> (truthy (field message ''result'') \<or> truthy (field message ''error'')))"
        "\<not> (truthy (field message ''method'') \<and> truthy (field message ''id''))"
    by blast
  then show ?thesis
  proof cases
    case c_null
    then show ?thesis by (simp add: dispatch_def)
  next
    case c_notification
    then show ?thesis by (simp add: dispatch_def moves_quiet quiet_handleNotification)
  next
    case c_response
    show ?thesis
    proof (cases "handlers_get (messageHandlers s) (field message ''id'')")
      case None
      with c_response show ?thesis
        by (auto simp: dispatch_def Let_def moves_quiet quiet_console)
    next
      case (Some h)
      then obtain rid where rid: "field message ''id'' = JNum rid" "messageHandlers s rid = Some h"
        by (auto simp: handlers_get_def split: jsval.splits)
      obtain x s' where c: "call_handler h message s = (x, s')" by (cases "call_handler h message s")
      show ?thesis
      proof (cases x)
        case None
        with c rid have "move s (s'\<lparr>messageHandlers := (messageHandlers s')(rid := None)\<rparr>)"
          by (auto intro: move_handled)
        moreover from c_response Some c None rid
        have "snd (dispatch message s) = s'\<lparr>messageHandlers := (messageHandlers s')(rid := None)\<rparr>"
          by (auto simp: dispatch_def Let_def handlers_delete_def)
        ultimately show ?thesis by auto
      next
        case (Some e)
        with c rid have "move s s'" by (auto intro: move_threw)
        moreover from c_response \<open>handlers_get (messageHandlers s) (field message ''id'') = Some h\<close> c Some
        have "snd (dispatch message s) = s'"
          by (auto simp: dispatch_def Let_def)
        ultimately show ?thesis by auto
      qed
    qed
  next
    case c_request
    then show ?thesis by (auto simp: dispatch_def Let_def moves_quiet quiet_handleServerRequest)
  next
    case c_other
    then show ?thesis by (auto simp: dispatch_def Let_def moves_quiet quiet_console)
  qed
qed

lemma handleIncomingMessage_moves:
  "move\<^sup>*\<^sup>* s (snd (handleIncomingMessage message s))"
  "move\<^sup>*\<^sup>* s (snd (forEach msgs s))"
proof (induction message s and msgs s rule: handleIncomingMessage_forEach.induct)
  case (4 msg msgs s)
  obtain x s' where h: "handleIncomingMessage msg s = (x, s')"
    by (cases "handleIncomingMessage msg s")
  show ?case
  proof (cases x)
    case None
    with h 4(1) have "move\<^sup>*\<^sup>* s s'" by simp
    moreover from h None 4(2) have "move\<^sup>*\<^sup>* s' (snd (forEach msgs s'))" by simp
    ultimately show ?thesis using h None by simp
  next
    case (Some e)
    with h 4(1) show ?thesis by simp
  qed
qed (simp_all add: dispatch_moves)

lemma step_moves: "move\<^sup>*\<^sup>* s (step ev s)"
proof (cases ev)
  case (CallOn event callback)
  then show ?thesis by (simp add: moves_quiet quiet_on)
next
  case CallConnect
  then show ?thesis by (simp add: moves_quiet quiet_connect_opens)
next
  case CallDisconnect
  then show ?thesis by (simp add: moves_quiet quiet_disconnect)
next
  case CallListTools
  then show ?thesis
    by (auto simp: listTools_def case_prod_beta intro: move_request)
next
  case (CallTool name args withProgress now)
  then show ?thesis
    by (auto simp: callTool_def Let_def case_prod_beta intro: move_request)
next
  case (CallSendRequest request timeout)
  then show ?thesis by (auto intro: move_request)
next
  case (EndpointEvent d)
  have "move\<^sup>*\<^sup>* s (console Log ''Message endpoint:'' (s\<lparr>messageEndpoint := Some d\<rparr>))"
    by (rule moves_quiet) (simp add: quiet_def console_def catches_def)
  moreover have "move (console Log ''Message endpoint:'' (s\<lparr>messageEndpoint := Some d\<rparr>))
                   (snd (endpoint_event d s))"
    by (simp add: endpoint_event_def initialize_def move_request)
  ultimately show ?thesis using EndpointEvent by simp
next
  case (MessageEvent d)
  show ?thesis
  proof (cases d)
    case None
    with MessageEvent show ?thesis by (simp add: message_event_def moves_quiet quiet_console)
  next
    case (Some message)
    obtain x s' where h: "handleIncomingMessage message s = (x, s')"
      by (cases "handleIncomingMessage message s")
    with handleIncomingMessage_moves(1) [of s message] have m: "move\<^sup>*\<^sup>* s s'" by simp
    show ?thesis
    proof (cases x)
      case None
      with MessageEvent Some h m show ?thesis by (simp add: message_event_def)
    next
      case e: (Some e)
      from m have "move\<^sup>*\<^sup>* s (console Err ''Error parsing message:'' s')"
        by (rule rtranclp.rtrancl_into_rtrancl) (rule move_quiet, rule quiet_console)
      with MessageEvent Some h e show ?thesis by (simp add: message_event_def)
    qed
  qed
next
  case (InitializeResumes r)
  obtain x s' where h: "initialize_resumes r s = (x, s')" by (cases "initialize_resumes r s")
  with quiet_initialize_resumes [of s r] have q: "quiet s s'" by simp
  show ?thesis
  proof (cases x)
    case None
    from q have "quiet s (connect_then r s')" by (rule quiet_trans) (rule quiet_connect_then)
    with InitializeResumes h None show ?thesis by (simp add: moves_quiet)
  next
    case (Some e)
    with InitializeResumes h q show ?thesis by (simp add: moves_quiet)
  qed
next
  case (TimerFires t)
  then show ?thesis by (auto intro: move_timer)
next
  case (FetchSettles f r)
  then show ?thesis by (auto intro: move_fetch)
qed

lemma run_moves: "move\<^sup>*\<^sup>* s (run evs s)"
proof (induction evs arbitrary: s)
  case Nil
  show ?case by (simp add: run_def)
next
  case (Cons ev evs)
  have "move\<^sup>*\<^sup>* s (step ev s)" by (rule step_moves)
  moreover have "move\<^sup>*\<^sup>* (step ev s) (run evs (step ev s))" by (rule Cons.IH)
  ultimately show ?case by (simp add: run_def)
qed

section \<open>What each move does\<close>

lemma call_handler_fields:
  assumes "call_handler h response s = (x, s')"
  shows "messageHandlers s' = messageHandlers s"
    and "timers s' = (timers s)(h_timeoutId h := None)"
    and "sends s' = sends s"
    and "nextPromise s' = nextPromise s"
    and "nextTimer s' = nextTimer s"
    and "nextRequestId s' = nextRequestId s"
  using assms
  by (auto simp: call_handler_def clearTimeout_def reject_def resolve_def Let_def split: if_splits)

lemma call_handler_threw:
  "call_handler h response s = (Some e, s') \<Longrightarrow> trace s' = trace s"
  by (auto simp: call_handler_def clearTimeout_def reject_def resolve_def Let_def split: if_splits)

lemma call_handler_settled:
  assumes "call_handler h response s = (None, s')"
  shows "(\<exists>v. trace s' = trace s @ [Resolve (h_promise h) v])
       \<or> (\<exists>c m. trace s' = trace s @ [Reject (h_promise h) (RpcError c m)])"
  using assms
  by (auto simp: call_handler_def clearTimeout_def reject_def resolve_def Let_def split: if_splits)

lemma timer_fires_fields:
  assumes "timers s t = Some c" and "s' = timer_fires t s"
  shows "messageHandlers s' = (messageHandlers s)(t_id c := None)"
    and "timers s' = (timers s)(t := None)"
    and "sends s' = sends s"
    and "nextPromise s' = nextPromise s"
    and "nextTimer s' = nextTimer s"
    and "nextRequestId s' = nextRequestId s"
    and "trace s' = trace s @ [Reject (t_promise c) (TimeoutError (t_timeoutMs c))]"
  using assms by (simp_all add: timer_fires_def reject_def)

lemma send_failure_cases:
  "send_failure r = Some e \<Longrightarrow> e = FetchError \<or> (\<exists>status txt. e = HttpError status txt)"
  by (cases r) (auto split: if_splits)

lemma fetch_settles_quiet:
  assumes "sends s f = None \<or> send_failure r = None \<or> sends s f = Some Uncaught"
  shows "quiet s (fetch_settles f r s)"
  using assms
  by (auto simp: fetch_settles_def quiet_def catches_def console_def Let_def
           split: option.splits if_splits)

lemma fetch_settles_fields:
  assumes "sends s f = Some (SendRequestCatch rid t p)" and "send_failure r = Some e"
      and "s' = fetch_settles f r s"
  shows "messageHandlers s' = (messageHandlers s)(rid := None)"
    and "timers s' = (timers s)(t := None)"
    and "sends s' = (sends s)(f := None)"
    and "nextPromise s' = nextPromise s"
    and "nextTimer s' = nextTimer s"
    and "nextRequestId s' = nextRequestId s"
    and "trace s' = trace s @ [Console Err ''Error sending message:'', Reject p e]"
  using assms
  by (simp_all add: fetch_settles_def console_def clearTimeout_def reject_def)

lemma fetch_settles_cases:
  obtains (quiet) "quiet s (fetch_settles f r s)"
    | (failed) rid t p e where "sends s f = Some (SendRequestCatch rid t p)"
        and "send_failure r = Some e"
proof (cases "sends s f")
  case None
  then show ?thesis using fetch_settles_quiet quiet by blast
next
  case (Some c)
  show ?thesis
  proof (cases "send_failure r")
    case None
    then show ?thesis using fetch_settles_quiet quiet by blast
  next
    case e: (Some e)
    show ?thesis
    proof (cases c)
      case Uncaught
      with Some show ?thesis using fetch_settles_quiet quiet by blast
    next
      case (SendRequestCatch rid t p)
      with Some e show ?thesis using failed by blast
    qed
  qed
qed

section \<open>The ids in the table\<close>

lemma ids_fresh_constructor: "ids_fresh (constructor url)"
  by (simp add: ids_fresh_def constructor_def)

lemma move_ids_fresh:
  assumes "move s s'" and "ids_fresh s"
  shows "ids_fresh s'"
  using assms
proof (cases rule: move.cases)
  case move_quiet
  with assms(2) show ?thesis by (simp add: ids_fresh_def quiet_def)
next
  case (move_request request timeout)
  show ?thesis
  proof (cases "nullish request")
    case True
    with move_request assms(2) show ?thesis
      by (auto simp: sendRequest_nullish reject_def ids_fresh_def js_incr_def)
  next
    case False
    from sendRequest_fields(1,6) [OF False move_request] assms(2) show ?thesis
      by (auto simp: ids_fresh_def js_incr_def split: if_splits)
  qed
next
  case (move_handled rid h response s1)
  from call_handler_fields(1,6) [OF move_handled(3)] move_handled(1) assms(2) show ?thesis
    by (auto simp: ids_fresh_def split: if_splits)
next
  case (move_threw rid h response e)
  from call_handler_fields(1,6) [OF move_threw(2)] assms(2) show ?thesis
    by (auto simp: ids_fresh_def)
next
  case (move_timer t)
  show ?thesis
  proof (cases "timers s t")
    case None
    with move_timer assms(2) show ?thesis by (simp add: timer_fires_def)
  next
    case (Some c)
    from timer_fires_fields(1,6) [OF Some move_timer] assms(2) show ?thesis
      by (auto simp: ids_fresh_def split: if_splits)
  qed
next
  case (move_fetch f r)
  show ?thesis
  proof (cases rule: fetch_settles_cases [of s f r])
    case quiet
    with move_fetch assms(2) show ?thesis by (simp add: ids_fresh_def quiet_def)
  next
    case (failed rid t p e)
    from fetch_settles_fields(1,6) [OF failed move_fetch] assms(2) show ?thesis
      by (auto simp: ids_fresh_def split: if_splits)
  qed
qed

lemma moves_ids_fresh: "move\<^sup>*\<^sup>* s s' \<Longrightarrow> ids_fresh s \<Longrightarrow> ids_fresh s'"
  by (induction rule: rtranclp_induct) (auto intro: move_ids_fresh)

section \<open>The closures\<close>

lemma closures_ok_constructor: "closures_ok (constructor url)"
  by (simp add: closures_ok_def closures_def catches_def constructor_def)

lemma closures_ok_subset:
  assumes "closures_ok s" and "closures s' \<subseteq> closures s"
      and "nextPromise s \<le> nextPromise s'" and "nextTimer s \<le> nextTimer s'"
  shows "closures_ok s'"
  unfolding closures_ok_def
proof (intro conjI allI impI)
  fix rid t p assume "(rid, t, p) \<in> closures s'"
  with assms(2) have "(rid, t, p) \<in> closures s" by blast
  with assms(1) have "p < nextPromise s \<and> t < nextTimer s" by (simp add: closures_ok_def)
  with assms(3,4) show "p < nextPromise s'" and "t < nextTimer s'" by simp_all
next
  fix rid t p rid' t'
  assume "(rid, t, p) \<in> closures s' \<and> (rid', t', p) \<in> closures s'"
  with assms(2) have "(rid, t, p) \<in> closures s \<and> (rid', t', p) \<in> closures s" by blast
  with assms(1) show "rid = rid'" and "t = t'" unfolding closures_ok_def by blast+
qed

lemma closures_ok_insert:
  assumes "closures_ok s"
      and "closures s' \<subseteq> insert (rid0, nextTimer s, nextPromise s) (closures s)"
      and "nextPromise s' = Suc (nextPromise s)" and "nextTimer s' = Suc (nextTimer s)"
  shows "closures_ok s'"
  unfolding closures_ok_def
proof (intro conjI allI impI)
  fix rid t p assume "(rid, t, p) \<in> closures s'"
  with assms(2) have "(rid, t, p) = (rid0, nextTimer s, nextPromise s) \<or> (rid, t, p) \<in> closures s"
    by blast
  with assms(1) have "p \<le> nextPromise s \<and> t \<le> nextTimer s"
    by (auto simp: closures_ok_def dest: less_imp_le)
  with assms(3,4) show "p < nextPromise s'" and "t < nextTimer s'" by simp_all
next
  fix rid t p rid' t'
  assume a: "(rid, t, p) \<in> closures s' \<and> (rid', t', p) \<in> closures s'"
  from assms(1) have old: "\<And>r u q. (r, u, q) \<in> closures s \<Longrightarrow> q < nextPromise s"
    by (simp add: closures_ok_def)
  from a assms(2)
  have 1: "(rid, t, p) = (rid0, nextTimer s, nextPromise s) \<or> (rid, t, p) \<in> closures s"
   and 2: "(rid', t', p) = (rid0, nextTimer s, nextPromise s) \<or> (rid', t', p) \<in> closures s"
    by blast+
  from 1 2 old have "((rid, t, p) = (rid0, nextTimer s, nextPromise s)
                        \<and> (rid', t', p) = (rid0, nextTimer s, nextPromise s))
                     \<or> ((rid, t, p) \<in> closures s \<and> (rid', t', p) \<in> closures s)"
    by auto
  with assms(1) show "rid = rid'" and "t = t'"
    unfolding closures_ok_def by blast+
qed

lemma quiet_closures: "quiet s s' \<Longrightarrow> closures s' \<subseteq> closures s"
  by (auto simp: quiet_def closures_def)

lemma closures_iff:
  "(rid, t, p) \<in> closures s \<longleftrightarrow>
     (\<exists>h. messageHandlers s rid = Some h \<and> h_timeoutId h = t \<and> h_promise h = p)
     \<or> (\<exists>c. timers s t = Some c \<and> t_id c = rid \<and> t_promise c = p)
     \<or> (\<exists>f. sends s f = Some (SendRequestCatch rid t p))"
  by (simp add: closures_def catches_def)

lemma closures_mono:
  assumes h: "\<And>rid h. messageHandlers s' rid = Some h \<Longrightarrow> messageHandlers s rid = Some h"
      and t: "\<And>t c. timers s' t = Some c \<Longrightarrow> timers s t = Some c"
      and c: "\<And>f rid t p. sends s' f = Some (SendRequestCatch rid t p)
                \<Longrightarrow> sends s f = Some (SendRequestCatch rid t p)"
  shows "closures s' \<subseteq> closures s"
proof
  fix x assume x: "x \<in> closures s'"
  obtain rid t p where [simp]: "x = (rid, t, p)" by (cases x)
  from x consider
      (a) hd where "messageHandlers s' rid = Some hd" "h_timeoutId hd = t" "h_promise hd = p"
    | (b) cl where "timers s' t = Some cl" "t_id cl = rid" "t_promise cl = p"
    | (c) f where "sends s' f = Some (SendRequestCatch rid t p)"
    by (auto simp: closures_iff)
  then show "x \<in> closures s"
  proof cases
    case a
    from h [OF a(1)] a(2,3) show ?thesis by (auto simp: closures_iff)
  next
    case b
    from t [OF b(1)] b(2,3) show ?thesis by (auto simp: closures_iff)
  next
    case c
    from assms(3) [OF c] show ?thesis by (auto simp: closures_iff)
  qed
qed

lemma closures_request:
  assumes "\<not> nullish request" and "s' = snd (sendRequest request timeout s)"
  shows "closures s' \<subseteq> insert (nextRequestId s, nextTimer s, nextPromise s) (closures s)"
proof
  note f = sendRequest_fields [OF assms]
  fix x assume x: "x \<in> closures s'"
  obtain rid t p where [simp]: "x = (rid, t, p)" by (cases x)
  from x consider
      (a) hd where "messageHandlers s' rid = Some hd" "h_timeoutId hd = t" "h_promise hd = p"
    | (b) cl where "timers s' t = Some cl" "t_id cl = rid" "t_promise cl = p"
    | (c) f where "sends s' f = Some (SendRequestCatch rid t p)"
    by (auto simp: closures_iff)
  then show "x \<in> insert (nextRequestId s, nextTimer s, nextPromise s) (closures s)"
  proof cases
    case a
    then show ?thesis
      by (cases "rid = nextRequestId s") (auto simp: f(1) closures_iff)
  next
    case b
    then show ?thesis
      by (cases "t = nextTimer s") (auto simp: f(2) closures_iff)
  next
    case (c g)
    then show ?thesis
      by (cases "g = nextFetch s") (auto simp: f(3) closures_iff)
  qed
qed

lemma move_closures_ok:
  assumes "move s s'" and "closures_ok s"
  shows "closures_ok s'"
  using assms(1)
proof (cases rule: move.cases)
  case move_quiet
  then have "closures s' \<subseteq> closures s" by (rule quiet_closures)
  with assms(2) show ?thesis
    by (rule closures_ok_subset) (use move_quiet in \<open>simp_all add: quiet_def\<close>)
next
  case (move_request request timeout)
  show ?thesis
  proof (cases "nullish request")
    case True
    with move_request have eq: "messageHandlers s' = messageHandlers s" "timers s' = timers s"
        "sends s' = sends s" "nextPromise s' = Suc (nextPromise s)" "nextTimer s' = nextTimer s"
      by (simp_all add: sendRequest_nullish reject_def)
    have "closures s' \<subseteq> closures s"
      by (rule closures_mono) (simp_all add: eq)
    with assms(2) show ?thesis
      by (rule closures_ok_subset) (simp_all add: eq)
  next
    case False
    note f = sendRequest_fields [OF False move_request]
    from assms(2) closures_request [OF False move_request] f(4,5) show ?thesis
      by (rule closures_ok_insert)
  qed
next
  case (move_handled rid h response s1)
  note f = call_handler_fields [OF move_handled(3)]
  have "closures s' \<subseteq> closures s"
    by (rule closures_mono) (auto simp: move_handled(1) f split: if_splits)
  with assms(2) show ?thesis
    by (rule closures_ok_subset) (simp_all add: move_handled(1) f)
next
  case (move_threw rid h response e)
  note f = call_handler_fields [OF move_threw(2)]
  have "closures s' \<subseteq> closures s"
    by (rule closures_mono) (auto simp: f split: if_splits)
  with assms(2) show ?thesis
    by (rule closures_ok_subset) (simp_all add: f)
next
  case (move_timer t)
  show ?thesis
  proof (cases "timers s t")
    case None
    with move_timer assms(2) show ?thesis by (simp add: timer_fires_def)
  next
    case (Some c)
    note f = timer_fires_fields [OF Some move_timer]
    have "closures s' \<subseteq> closures s"
      by (rule closures_mono) (auto simp: f split: if_splits)
    with assms(2) show ?thesis
      by (rule closures_ok_subset) (simp_all add: f)
  qed
next
  case (move_fetch f r)
  show ?thesis
  proof (cases rule: fetch_settles_cases [of s f r])
    case quiet
    with move_fetch have q: "quiet s s'" by simp
    then have "closures s' \<subseteq> closures s" by (rule quiet_closures)
    with assms(2) show ?thesis
      by (rule closures_ok_subset) (use q in \<open>simp_all add: quiet_def\<close>)
  next
    case (failed rid t p e)
    note g = fetch_settles_fields [OF failed move_fetch]
    have "closures s' \<subseteq> closures s"
      by (rule closures_mono) (auto simp: g split: if_splits)
    with assms(2) show ?thesis
      by (rule closures_ok_subset) (simp_all add: g)
  qed
qed

lemma moves_closures_ok: "move\<^sup>*\<^sup>* s s' \<Longrightarrow> closures_ok s \<Longrightarrow> closures_ok s'"
  by (induction rule: rtranclp_induct) (auto intro: move_closures_ok)

section \<open>Settled promises\<close>

lemma by_response_settles: "by_response p e \<Longrightarrow> settles p e"
  by (cases "(p, e)" rule: by_response.cases) simp_all

lemma by_timeout_settles: "by_timeout p e \<Longrightarrow> settles p e"
  by (cases "(p, e)" rule: by_timeout.cases) simp_all

lemma settles_is_settle: "settles p e \<Longrightarrow> is_settle e"
  by (cases e) simp_all

lemma filter_by_response_settle:
  "filter (by_response p) (filter is_settle tr) = filter (by_response p) tr"
  by (induction tr) (auto dest: by_response_settles settles_is_settle)

lemma filter_by_timeout_settle:
  "filter (by_timeout p) (filter is_settle tr) = filter (by_timeout p) tr"
  by (induction tr) (auto dest: by_timeout_settles settles_is_settle)

lemma quiet_counts:
  assumes "quiet s s'"
  shows "responses p s' = responses p s" and "timeouts p s' = timeouts p s"
proof -
  from assms have eq: "filter is_settle (trace s') = filter is_settle (trace s)"
    by (simp add: quiet_def)
  have "filter (by_response p) (trace s') = filter (by_response p) (trace s)"
    using filter_by_response_settle [of p "trace s'"] filter_by_response_settle [of p "trace s"] eq
    by simp
  then show "responses p s' = responses p s" by (simp add: responses_def)
  have "filter (by_timeout p) (trace s') = filter (by_timeout p) (trace s)"
    using filter_by_timeout_settle [of p "trace s'"] filter_by_timeout_settle [of p "trace s"] eq
    by simp
  then show "timeouts p s' = timeouts p s" by (simp add: timeouts_def)
qed

lemma quiet_settles:
  assumes "quiet s s'" and "e \<in> set (trace s')" and "settles p e"
  shows "e \<in> set (trace s)"
proof -
  from assms(2,3) have "e \<in> set (filter is_settle (trace s'))"
    by (simp add: settles_is_settle)
  with assms(1) have "e \<in> set (filter is_settle (trace s))" by (simp add: quiet_def)
  then show ?thesis by simp
qed

lemma quiet_has:
  assumes "quiet s s'"
  shows "has_handler p s' = has_handler p s" and "has_timer p s' = has_timer p s"
  using assms by (simp_all add: quiet_def has_handler_def has_timer_def)

lemma counted_settles:
  assumes "0 < responses p s + timeouts p s"
  shows "\<exists>e \<in> set (trace s). settles p e"
proof -
  from assms have "filter (by_response p) (trace s) \<noteq> [] \<or> filter (by_timeout p) (trace s) \<noteq> []"
    by (auto simp: responses_def timeouts_def)
  then obtain e where "e \<in> set (trace s)" "by_response p e \<or> by_timeout p e"
    by (auto simp: filter_empty_conv)
  then show ?thesis by (auto dest: by_response_settles by_timeout_settles)
qed

lemma settled_ok_made:
  "settled_ok s \<Longrightarrow> e \<in> set (trace s) \<Longrightarrow> settles p e \<Longrightarrow> p < nextPromise s"
  unfolding settled_ok_def by (elim conjE allE [of _ p] allE [of _ e]) simp

lemma settled_ok_once: "settled_ok s \<Longrightarrow> responses p s + timeouts p s \<le> 1"
  by (simp add: settled_ok_def)

lemma settled_ok_dead:
  "settled_ok s \<Longrightarrow> 0 < responses p s + timeouts p s
   \<Longrightarrow> \<not> has_handler p s \<and> \<not> has_timer p s"
  unfolding settled_ok_def by (elim conjE allE [of _ p]) simp

lemma settled_okI:
  assumes a: "\<And>p e. e \<in> set (trace s) \<Longrightarrow> settles p e \<Longrightarrow> p < nextPromise s"
      and b: "\<And>p. responses p s + timeouts p s \<le> 1"
      and c: "\<And>p. 0 < responses p s + timeouts p s
                \<Longrightarrow> \<not> has_handler p s \<and> \<not> has_timer p s"
  shows "settled_ok s"
  unfolding settled_ok_def
proof (intro conjI allI impI)
  fix p e assume "e \<in> set (trace s) \<and> settles p e"
  then show "p < nextPromise s" using a by blast
next
  fix p show "responses p s + timeouts p s \<le> 1" by (rule b)
next
  fix p assume "0 < responses p s + timeouts p s"
  from c [OF this] show "\<not> has_handler p s" by simp
next
  fix p assume "0 < responses p s + timeouts p s"
  from c [OF this] show "\<not> has_timer p s" by simp
qed


lemma counted_append:
  "trace s' = trace s @ es \<Longrightarrow>
   responses p s' + timeouts p s' = responses p s + timeouts p s + counted p es"
  by (simp add: responses_def timeouts_def counted_def)

lemma settled_ok_step:
  assumes ok: "settled_ok s"
      and np: "nextPromise s \<le> nextPromise s'"
      and tr: "trace s' = trace s @ es"
      and new: "\<And>q e. e \<in> set es \<Longrightarrow> settles q e \<Longrightarrow> q < nextPromise s'"
      and cnt: "\<And>q. 0 < counted q es \<Longrightarrow>
                  responses q s + timeouts q s = 0 \<and> counted q es = 1
                  \<and> \<not> has_handler q s' \<and> \<not> has_timer q s'"
      and hs: "\<And>q. has_handler q s' \<Longrightarrow> has_handler q s \<or> nextPromise s \<le> q"
      and ts: "\<And>q. has_timer q s' \<Longrightarrow> has_timer q s \<or> nextPromise s \<le> q"
  shows "settled_ok s'"
proof (rule settled_okI)
  fix p e assume "e \<in> set (trace s')" and "settles p e"
  with tr have "(e \<in> set (trace s) \<and> settles p e) \<or> (e \<in> set es \<and> settles p e)" by auto
  then show "p < nextPromise s'"
  proof
    assume "e \<in> set (trace s) \<and> settles p e"
    with ok have "p < nextPromise s" by (auto dest: settled_ok_made)
    with np show ?thesis by simp
  next
    assume "e \<in> set es \<and> settles p e"
    then show ?thesis using new by blast
  qed
next
  fix p
  show "responses p s' + timeouts p s' \<le> 1"
  proof (cases "0 < counted p es")
    case True
    with cnt [of p] counted_append [OF tr, of p] show ?thesis by simp
  next
    case False
    with counted_append [OF tr, of p] settled_ok_once [OF ok, of p] show ?thesis by simp
  qed
next
  fix p assume pos: "0 < responses p s' + timeouts p s'"
  show "\<not> has_handler p s' \<and> \<not> has_timer p s'"
  proof (cases "0 < counted p es")
    case True
    with cnt [of p] show ?thesis by simp
  next
    case False
    with counted_append [OF tr, of p] pos have old: "0 < responses p s + timeouts p s" by simp
    have dead: "\<not> has_handler p s \<and> \<not> has_timer p s" by (rule settled_ok_dead [OF ok old])
    from counted_settles [OF old] ok have "p < nextPromise s" by (auto dest: settled_ok_made)
    with dead hs [of p] ts [of p] show ?thesis by auto
  qed
qed

lemma settled_ok_quiet:
  assumes "quiet s s'" and "settled_ok s"
  shows "settled_ok s'"
proof (rule settled_okI)
  fix p e assume "e \<in> set (trace s')" and "settles p e"
  with quiet_settles [OF assms(1)] have "e \<in> set (trace s) \<and> settles p e" by blast
  with assms(2) have "p < nextPromise s" by (auto dest: settled_ok_made)
  with assms(1) show "p < nextPromise s'" by (simp add: quiet_def)
next
  fix p
  from settled_ok_once [OF assms(2), of p] show "responses p s' + timeouts p s' \<le> 1"
    by (simp add: quiet_counts [OF assms(1)])
next
  fix p assume "0 < responses p s' + timeouts p s'"
  then have "0 < responses p s + timeouts p s" by (simp add: quiet_counts [OF assms(1)])
  with assms(2) have "\<not> has_handler p s \<and> \<not> has_timer p s" by (rule settled_ok_dead)
  then show "\<not> has_handler p s' \<and> \<not> has_timer p s'" by (simp add: quiet_has [OF assms(1)])
qed

lemma closure_removed:
  assumes ok: "closures_ok s" and cl: "(rid, t, p) \<in> closures s"
      and h: "messageHandlers s' = (messageHandlers s)(rid := None)"
      and tm: "timers s' = (timers s)(t := None)"
  shows "\<not> has_handler p s'" and "\<not> has_timer p s'"
proof -
  from ok cl have agree: "\<And>rid' t'. (rid', t', p) \<in> closures s \<Longrightarrow> rid' = rid \<and> t' = t"
    unfolding closures_ok_def by blast
  show "\<not> has_handler p s'"
  proof
    assume "has_handler p s'"
    then obtain j hd where j: "messageHandlers s' j = Some hd" "h_promise hd = p"
      by (auto simp: has_handler_def)
    with h have "j \<noteq> rid" "messageHandlers s j = Some hd" by (auto split: if_splits)
    with j(2) have "(j, h_timeoutId hd, p) \<in> closures s" by (auto simp: closures_iff)
    with agree \<open>j \<noteq> rid\<close> show False by blast
  qed
  show "\<not> has_timer p s'"
  proof
    assume "has_timer p s'"
    then obtain u c where u: "timers s' u = Some c" "t_promise c = p"
      by (auto simp: has_timer_def)
    with tm have "u \<noteq> t" "timers s u = Some c" by (auto split: if_splits)
    with u(2) have "(t_id c, u, p) \<in> closures s" by (auto simp: closures_iff)
    with agree \<open>u \<noteq> t\<close> show False by blast
  qed
qed

lemma has_handler_removed:
  "messageHandlers s' = (messageHandlers s)(rid := None) \<Longrightarrow> has_handler q s' \<Longrightarrow> has_handler q s"
  by (auto simp: has_handler_def split: if_splits)

lemma has_timer_removed:
  "timers s' = (timers s)(t := None) \<Longrightarrow> has_timer q s' \<Longrightarrow> has_timer q s"
  by (auto simp: has_timer_def split: if_splits)

lemma has_handler_same:
  "messageHandlers s' = messageHandlers s \<Longrightarrow> has_handler q s' = has_handler q s"
  by (simp add: has_handler_def)

lemma has_timer_same:
  "timers s' = timers s \<Longrightarrow> has_timer q s' = has_timer q s"
  by (simp add: has_timer_def)

lemma has_handler_added:
  "messageHandlers s' = (messageHandlers s)(rid \<mapsto> \<lparr>h_timeoutId = t, h_promise = p\<rparr>)
   \<Longrightarrow> has_handler q s' \<Longrightarrow> has_handler q s \<or> q = p"
  by (auto simp: has_handler_def split: if_splits)

lemma has_timer_added:
  "timers s' = (timers s)(t \<mapsto> \<lparr>t_id = rid, t_promise = p, t_timeoutMs = ms\<rparr>)
   \<Longrightarrow> has_timer q s' \<Longrightarrow> has_timer q s \<or> q = p"
  by (auto simp: has_timer_def split: if_splits)

lemma closures_made:
  "closures_ok s \<Longrightarrow> (rid, t, p) \<in> closures s \<Longrightarrow> p < nextPromise s"
  unfolding closures_ok_def by blast

lemma handler_closure:
  "messageHandlers s rid = Some h \<Longrightarrow> (rid, h_timeoutId h, h_promise h) \<in> closures s"
  by (simp add: closures_iff)

lemma timer_closure:
  "timers s t = Some c \<Longrightarrow> (t_id c, t, t_promise c) \<in> closures s"
  by (simp add: closures_iff)

lemma catch_closure:
  "sends s f = Some (SendRequestCatch rid t p) \<Longrightarrow> (rid, t, p) \<in> closures s"
  by (auto simp: closures_iff)

lemma settled_ok_constructor: "settled_ok (constructor url)"
  by (rule settled_okI)
     (simp_all add: constructor_def responses_def timeouts_def has_handler_def has_timer_def)

lemma settled_ok_settling:
  assumes c_ok: "closures_ok s" and ok: "settled_ok s"
      and cl: "(rid, t, p) \<in> closures s"
      and alive: "has_handler p s \<or> has_timer p s"
      and h: "messageHandlers s' = (messageHandlers s)(rid := None)"
      and tm: "timers s' = (timers s)(t := None)"
      and np: "nextPromise s' = nextPromise s"
      and tr: "trace s' = trace s @ [e]"
      and e: "(\<exists>v. e = Resolve p v) \<or> (\<exists>c m. e = Reject p (RpcError c m))
              \<or> (\<exists>ms. e = Reject p (TimeoutError ms))"
  shows "settled_ok s'"
proof (rule settled_ok_step [OF ok _ tr])
  show "nextPromise s \<le> nextPromise s'" by (simp add: np)
next
  fix q e' assume "e' \<in> set [e]" and "settles q e'"
  with e have "q = p" by auto
  with closures_made [OF c_ok cl] show "q < nextPromise s'" by (simp add: np)
next
  fix q assume pos: "0 < counted q [e]"
  with e have q: "q = p" by (auto simp: counted_def split: if_splits)
  from e have one: "counted p [e] = 1" by (auto simp: counted_def)
  have zero: "responses p s + timeouts p s = 0"
  proof (rule ccontr)
    assume "responses p s + timeouts p s \<noteq> 0"
    then have "0 < responses p s + timeouts p s" by simp
    from settled_ok_dead [OF ok this] alive show False by simp
  qed
  from closure_removed [OF c_ok cl h tm] q one zero
  show "responses q s + timeouts q s = 0 \<and> counted q [e] = 1
        \<and> \<not> has_handler q s' \<and> \<not> has_timer q s'"
    by simp
next
  fix q assume "has_handler q s'"
  then show "has_handler q s \<or> nextPromise s \<le> q"
    by (auto dest: has_handler_removed [OF h])
next
  fix q assume "has_timer q s'"
  then show "has_timer q s \<or> nextPromise s \<le> q"
    by (auto dest: has_timer_removed [OF tm])
qed

lemma settled_ok_shrinking:
  assumes ok: "settled_ok s"
      and np: "nextPromise s \<le> nextPromise s'"
      and tr: "trace s' = trace s @ es"
      and es: "\<And>q. counted q es = 0"
      and new: "\<And>q e. e \<in> set es \<Longrightarrow> settles q e \<Longrightarrow> q < nextPromise s'"
      and hs: "\<And>q. has_handler q s' \<Longrightarrow> has_handler q s \<or> nextPromise s \<le> q"
      and ts: "\<And>q. has_timer q s' \<Longrightarrow> has_timer q s \<or> nextPromise s \<le> q"
  shows "settled_ok s'"
  by (rule settled_ok_step [OF ok np tr new _ hs ts]) (simp_all add: es)

lemma move_settled_ok:
  assumes "move s s'" and c_ok: "closures_ok s" and ok: "settled_ok s"
  shows "settled_ok s'"
  using assms(1)
proof (cases rule: move.cases)
  case move_quiet
  then show ?thesis using ok by (rule settled_ok_quiet)
next
  case (move_request request timeout)
  show ?thesis
  proof (cases "nullish request")
    case True
    with move_request have eq: "messageHandlers s' = messageHandlers s" "timers s' = timers s"
        "nextPromise s' = Suc (nextPromise s)"
        "trace s' = trace s @ [Reject (nextPromise s) TypeError]"
      by (simp_all add: sendRequest_nullish reject_def)
    show ?thesis
    proof (rule settled_ok_shrinking [OF ok _ eq(4)])
      show "nextPromise s \<le> nextPromise s'" by (simp add: eq)
      show "counted q [Reject (nextPromise s) TypeError] = 0" for q by (simp add: counted_def)
      show "q < nextPromise s'" if "e \<in> set [Reject (nextPromise s) TypeError]" "settles q e" for q e
        using that by (auto simp: eq)
      show "has_handler q s \<or> nextPromise s \<le> q" if "has_handler q s'" for q
        using that by (simp add: has_handler_same [OF eq(1)])
      show "has_timer q s \<or> nextPromise s \<le> q" if "has_timer q s'" for q
        using that by (simp add: has_timer_same [OF eq(2)])
    qed
  next
    case False
    note f = sendRequest_fields [OF False move_request]
    show ?thesis
    proof (rule settled_ok_shrinking [OF ok _ f(8)])
      show "nextPromise s \<le> nextPromise s'" by (simp add: f)
      show "counted q [Fetch (nextFetch s) (endpoint s)
                          (JObj [(''jsonrpc'', JStr ''2.0''),
                                 (''id'', JNum (nextRequestId s)),
                                 (''method'', field request ''method''),
                                 (''params'', or_else (field request ''params'') (JObj []))])] = 0"
        for q by (simp add: counted_def)
      show "q < nextPromise s'"
        if "e \<in> set [Fetch (nextFetch s) (endpoint s)
                          (JObj [(''jsonrpc'', JStr ''2.0''),
                                 (''id'', JNum (nextRequestId s)),
                                 (''method'', field request ''method''),
                                 (''params'', or_else (field request ''params'') (JObj []))])]"
           "settles q e" for q e
        using that by auto
      show "has_handler q s \<or> nextPromise s \<le> q" if "has_handler q s'" for q
        using has_handler_added [OF f(1) that] by auto
      show "has_timer q s \<or> nextPromise s \<le> q" if "has_timer q s'" for q
        using has_timer_added [OF f(2) that] by auto
    qed
  qed
next
  case (move_handled rid h response s1)
  note f = call_handler_fields [OF move_handled(3)]
  from call_handler_settled [OF move_handled(3)]
  obtain e where e: "trace s1 = trace s @ [e]"
      "(\<exists>v. e = Resolve (h_promise h) v) \<or> (\<exists>c m. e = Reject (h_promise h) (RpcError c m))"
    by auto
  show ?thesis
  proof (rule settled_ok_settling [OF c_ok ok handler_closure [OF move_handled(2)]])
    show "has_handler (h_promise h) s \<or> has_timer (h_promise h) s"
      using move_handled(2) by (auto simp: has_handler_def)
    show "messageHandlers s' = (messageHandlers s)(rid := None)"
      by (simp add: move_handled(1) f)
    show "timers s' = (timers s)(h_timeoutId h := None)" by (simp add: move_handled(1) f)
    show "nextPromise s' = nextPromise s" by (simp add: move_handled(1) f)
    show "trace s' = trace s @ [e]" by (simp add: move_handled(1) e(1))
    from e(2) show "(\<exists>v. e = Resolve (h_promise h) v)
          \<or> (\<exists>c m. e = Reject (h_promise h) (RpcError c m))
          \<or> (\<exists>ms. e = Reject (h_promise h) (TimeoutError ms))" by blast
  qed
next
  case (move_threw rid h response e)
  note f = call_handler_fields [OF move_threw(2)]
  have tr: "trace s' = trace s @ []" by (simp add: call_handler_threw [OF move_threw(2)])
  show ?thesis
  proof (rule settled_ok_shrinking [OF ok _ tr])
    show "nextPromise s \<le> nextPromise s'" by (simp add: f)
    show "counted q [] = 0" for q by (simp add: counted_def)
    show "q < nextPromise s'" if "e \<in> set []" "settles q e" for q and e :: effect
      using that by simp
    show "has_handler q s \<or> nextPromise s \<le> q" if "has_handler q s'" for q
      using that by (simp add: has_handler_same [OF f(1)])
    show "has_timer q s \<or> nextPromise s \<le> q" if "has_timer q s'" for q
      using has_timer_removed [OF f(2) that] by simp
  qed
next
  case (move_timer t)
  show ?thesis
  proof (cases "timers s t")
    case None
    with move_timer ok show ?thesis by (simp add: timer_fires_def)
  next
    case (Some c)
    note f = timer_fires_fields [OF Some move_timer]
    show ?thesis
    proof (rule settled_ok_settling [OF c_ok ok timer_closure [OF Some]])
      show "has_handler (t_promise c) s \<or> has_timer (t_promise c) s"
        using Some by (auto simp: has_timer_def)
      show "messageHandlers s' = (messageHandlers s)(t_id c := None)" by (rule f(1))
      show "timers s' = (timers s)(t := None)" by (rule f(2))
      show "nextPromise s' = nextPromise s" by (rule f(4))
      show "trace s' = trace s @ [Reject (t_promise c) (TimeoutError (t_timeoutMs c))]"
        by (rule f(7))
      show "(\<exists>v. Reject (t_promise c) (TimeoutError (t_timeoutMs c)) = Resolve (t_promise c) v)
          \<or> (\<exists>ca m. Reject (t_promise c) (TimeoutError (t_timeoutMs c))
                       = Reject (t_promise c) (RpcError ca m))
          \<or> (\<exists>ms. Reject (t_promise c) (TimeoutError (t_timeoutMs c))
                       = Reject (t_promise c) (TimeoutError ms))"
        by simp
    qed
  qed
next
  case (move_fetch f r)
  show ?thesis
  proof (cases rule: fetch_settles_cases [of s f r])
    case quiet
    with move_fetch have "quiet s s'" by simp
    then show ?thesis using ok by (rule settled_ok_quiet)
  next
    case (failed rid t p e)
    note g = fetch_settles_fields [OF failed move_fetch]
    from send_failure_cases [OF failed(2)]
    have cnt: "counted q [Console Err ''Error sending message:'', Reject p e] = 0" for q
      by (auto simp: counted_def)
    show ?thesis
    proof (rule settled_ok_shrinking [OF ok _ g(7) cnt])
      show "nextPromise s \<le> nextPromise s'" by (simp add: g)
      show "q < nextPromise s'"
        if "e' \<in> set [Console Err ''Error sending message:'', Reject p e]" "settles q e'" for q e'
        using that closures_made [OF c_ok catch_closure [OF failed(1)]] by (auto simp: g)
      show "has_handler q s \<or> nextPromise s \<le> q" if "has_handler q s'" for q
        using has_handler_removed [OF g(1) that] by simp
      show "has_timer q s \<or> nextPromise s \<le> q" if "has_timer q s'" for q
        using has_timer_removed [OF g(2) that] by simp
    qed
  qed
qed

lemma moves_settled_ok:
  "move\<^sup>*\<^sup>* s s' \<Longrightarrow> closures_ok s \<Longrightarrow> settled_ok s \<Longrightarrow> closures_ok s' \<and> settled_ok s'"
proof (induction rule: rtranclp_induct)
  case base
  then show ?case by simp
next
  case (step y z)
  then have "closures_ok y" "settled_ok y" by simp_all
  with step(2) show ?case by (simp add: move_closures_ok move_settled_ok)
qed

lemma reachable_ok:
  "closures_ok (run evs (constructor url)) \<and> settled_ok (run evs (constructor url))"
  by (rule moves_settled_ok [OF run_moves closures_ok_constructor settled_ok_constructor])

section \<open>A promise that is over\<close>

lemma over_step:
  assumes ov: "over p s"
      and np: "nextPromise s \<le> nextPromise s'"
      and tr: "trace s' = trace s @ es"
      and es: "counted p es = 0"
      and hs: "has_handler p s' \<Longrightarrow> has_handler p s \<or> nextPromise s \<le> p"
      and ts: "has_timer p s' \<Longrightarrow> has_timer p s \<or> nextPromise s \<le> p"
  shows "over p s' \<and> responses p s' = responses p s \<and> timeouts p s' = timeouts p s"
proof -
  from ov have p: "p < nextPromise s" "\<not> has_handler p s" "\<not> has_timer p s"
    by (simp_all add: over_def)
  with hs ts have "\<not> has_handler p s'" "\<not> has_timer p s'" by auto
  with p(1) np have "over p s'" by (simp add: over_def)
  moreover from tr es have "responses p s' = responses p s" "timeouts p s' = timeouts p s"
    by (simp_all add: responses_def timeouts_def counted_def)
  ultimately show ?thesis by simp
qed

lemma move_over:
  assumes "move s s'" and ov: "over p s"
  shows "over p s' \<and> responses p s' = responses p s \<and> timeouts p s' = timeouts p s"
  using assms(1)
proof (cases rule: move.cases)
  case move_quiet
  with ov show ?thesis
    by (simp add: quiet_counts [OF move_quiet] quiet_has [OF move_quiet] over_def quiet_def)
next
  case (move_request request timeout)
  show ?thesis
  proof (cases "nullish request")
    case True
    with move_request have eq: "messageHandlers s' = messageHandlers s" "timers s' = timers s"
        "nextPromise s' = Suc (nextPromise s)"
        "trace s' = trace s @ [Reject (nextPromise s) TypeError]"
      by (simp_all add: sendRequest_nullish reject_def)
    show ?thesis
      by (rule over_step [OF ov _ eq(4)])
         (simp_all add: eq(3) counted_def has_handler_same [OF eq(1)] has_timer_same [OF eq(2)])
  next
    case False
    note f = sendRequest_fields [OF False move_request]
    show ?thesis
    proof (rule over_step [OF ov _ f(8)])
      show "nextPromise s \<le> nextPromise s'" by (simp add: f)
      show "counted p [Fetch (nextFetch s) (endpoint s)
                          (JObj [(''jsonrpc'', JStr ''2.0''),
                                 (''id'', JNum (nextRequestId s)),
                                 (''method'', field request ''method''),
                                 (''params'', or_else (field request ''params'') (JObj []))])] = 0"
        by (simp add: counted_def)
      show "has_handler p s \<or> nextPromise s \<le> p" if "has_handler p s'"
        using has_handler_added [OF f(1) that] by auto
      show "has_timer p s \<or> nextPromise s \<le> p" if "has_timer p s'"
        using has_timer_added [OF f(2) that] by auto
    qed
  qed
next
  case (move_handled rid h response s1)
  note f = call_handler_fields [OF move_handled(3)]
  from call_handler_settled [OF move_handled(3)]
  obtain e where e: "trace s1 = trace s @ [e]"
      "(\<exists>v. e = Resolve (h_promise h) v) \<or> (\<exists>c m. e = Reject (h_promise h) (RpcError c m))"
    by auto
  from move_handled(2) ov have ne: "h_promise h \<noteq> p"
    by (auto simp: over_def has_handler_def)
  have h': "messageHandlers s' = (messageHandlers s)(rid := None)"
    by (simp add: move_handled(1) f)
  have t': "timers s' = (timers s)(h_timeoutId h := None)" by (simp add: move_handled(1) f)
  show ?thesis
  proof (rule over_step [OF ov])
    show "nextPromise s \<le> nextPromise s'" by (simp add: move_handled(1) f)
    show "trace s' = trace s @ [e]" by (simp add: move_handled(1) e(1))
    from e(2) ne show "counted p [e] = 0" by (auto simp: counted_def)
    show "has_handler p s \<or> nextPromise s \<le> p" if "has_handler p s'"
      using has_handler_removed [OF h' that] by simp
    show "has_timer p s \<or> nextPromise s \<le> p" if "has_timer p s'"
      using has_timer_removed [OF t' that] by simp
  qed
next
  case (move_threw rid h response e)
  note f = call_handler_fields [OF move_threw(2)]
  have tr: "trace s' = trace s @ []" by (simp add: call_handler_threw [OF move_threw(2)])
  show ?thesis
  proof (rule over_step [OF ov _ tr])
    show "nextPromise s \<le> nextPromise s'" by (simp add: f)
    show "counted p [] = 0" by (simp add: counted_def)
    show "has_handler p s \<or> nextPromise s \<le> p" if "has_handler p s'"
      using that by (simp add: has_handler_same [OF f(1)])
    show "has_timer p s \<or> nextPromise s \<le> p" if "has_timer p s'"
      using has_timer_removed [OF f(2) that] by simp
  qed
next
  case (move_timer t)
  show ?thesis
  proof (cases "timers s t")
    case None
    with move_timer show ?thesis by (simp add: timer_fires_def ov)
  next
    case (Some c)
    note f = timer_fires_fields [OF Some move_timer]
    from Some ov have ne: "t_promise c \<noteq> p" by (auto simp: over_def has_timer_def)
    show ?thesis
    proof (rule over_step [OF ov _ f(7)])
      show "nextPromise s \<le> nextPromise s'" by (simp add: f)
      from ne show "counted p [Reject (t_promise c) (TimeoutError (t_timeoutMs c))] = 0"
        by (simp add: counted_def)
      show "has_handler p s \<or> nextPromise s \<le> p" if "has_handler p s'"
        using has_handler_removed [OF f(1) that] by simp
      show "has_timer p s \<or> nextPromise s \<le> p" if "has_timer p s'"
        using has_timer_removed [OF f(2) that] by simp
    qed
  qed
next
  case (move_fetch f r)
  show ?thesis
  proof (cases rule: fetch_settles_cases [of s f r])
    case quiet
    with move_fetch have q: "quiet s s'" by simp
    with ov show ?thesis
      by (simp add: quiet_counts [OF q] quiet_has [OF q] over_def quiet_def)
  next
    case (failed rid t q e)
    note g = fetch_settles_fields [OF failed move_fetch]
    from send_failure_cases [OF failed(2)]
    have cnt: "counted p [Console Err ''Error sending message:'', Reject q e] = 0"
      by (auto simp: counted_def)
    show ?thesis
    proof (rule over_step [OF ov _ g(7) cnt])
      show "nextPromise s \<le> nextPromise s'" by (simp add: g)
      show "has_handler p s \<or> nextPromise s \<le> p" if "has_handler p s'"
        using has_handler_removed [OF g(1) that] by simp
      show "has_timer p s \<or> nextPromise s \<le> p" if "has_timer p s'"
        using has_timer_removed [OF g(2) that] by simp
    qed
  qed
qed

lemma moves_over:
  "move\<^sup>*\<^sup>* s s' \<Longrightarrow> over p s
   \<Longrightarrow> over p s' \<and> responses p s' = responses p s \<and> timeouts p s' = timeouts p s"
proof (induction rule: rtranclp_induct)
  case base
  then show ?case by simp
next
  case (step y z)
  then have "over p y" by simp
  from move_over [OF step(2) this] step show ?case by simp
qed

lemma run_over:
  "over p s \<Longrightarrow>
   over p (run evs s) \<and> responses p (run evs s) = responses p s
   \<and> timeouts p (run evs s) = timeouts p s"
  by (rule moves_over [OF run_moves])

lemma reachable_ids_fresh: "ids_fresh (run evs (constructor url))"
  by (rule moves_ids_fresh [OF run_moves ids_fresh_constructor])

section \<open>The moves, case by case\<close>

text \<open>
  What a move does to the handlers, the timers, the sends, the counters and the trace:
  it is quiet, or it is \<open>sendRequest\<close> stopping at a request that is \<open>null\<close>, or
  \<open>sendRequest\<close> registering a request, or a handler or a timer settling its
  promise, or a handler ending in an exception, or the \<open>catch\<close> of a send.
\<close>

lemma js_incr_mono: "n \<le> js_incr n"
  by (simp add: js_incr_def)

lemma js_incr_below: "js_incr n < 9007199254740992 \<Longrightarrow> n < 9007199254740992 \<and> js_incr n = n + 1"
  by (simp add: js_incr_def split: if_splits)

lemma move_cases_full [consumes 1, case_names quiet null_request request settle threw failed]:
  assumes "move s s'"
  obtains
    (quiet) "quiet s s'"
  | (null_request)
      "messageHandlers s' = messageHandlers s" "timers s' = timers s" "sends s' = sends s"
      "nextPromise s' = Suc (nextPromise s)" "nextTimer s' = nextTimer s"
      "nextRequestId s' = js_incr (nextRequestId s)"
      "trace s' = trace s @ [Reject (nextPromise s) TypeError]"
  | (request) ms e where
      "messageHandlers s'
         = (messageHandlers s)(nextRequestId s \<mapsto>
              \<lparr>h_timeoutId = nextTimer s, h_promise = nextPromise s\<rparr>)"
      "timers s'
         = (timers s)(nextTimer s \<mapsto>
              \<lparr>t_id = nextRequestId s, t_promise = nextPromise s, t_timeoutMs = ms\<rparr>)"
      "closures s' \<subseteq> insert (nextRequestId s, nextTimer s, nextPromise s) (closures s)"
      "nextPromise s' = Suc (nextPromise s)" "nextTimer s' = Suc (nextTimer s)"
      "nextRequestId s' = js_incr (nextRequestId s)"
      "trace s' = trace s @ [e]" "\<not> is_settle e"
  | (settle) rid t p e where
      "(rid, t, p) \<in> closures s" "has_handler p s \<or> has_timer p s"
      "messageHandlers s' = (messageHandlers s)(rid := None)"
      "timers s' = (timers s)(t := None)" "sends s' = sends s"
      "nextPromise s' = nextPromise s" "nextTimer s' = nextTimer s"
      "nextRequestId s' = nextRequestId s"
      "trace s' = trace s @ [e]" "settles p e" "by_response p e \<or> by_timeout p e"
  | (threw) rid h where
      "messageHandlers s rid = Some h"
      "messageHandlers s' = messageHandlers s"
      "timers s' = (timers s)(h_timeoutId h := None)" "sends s' = sends s"
      "nextPromise s' = nextPromise s" "nextTimer s' = nextTimer s"
      "nextRequestId s' = nextRequestId s"
      "trace s' = trace s"
  | (failed) f rid t p e where
      "sends s f = Some (SendRequestCatch rid t p)"
      "messageHandlers s' = (messageHandlers s)(rid := None)"
      "timers s' = (timers s)(t := None)" "sends s' = (sends s)(f := None)"
      "nextPromise s' = nextPromise s" "nextTimer s' = nextTimer s"
      "nextRequestId s' = nextRequestId s"
      "trace s' = trace s @ [Console Err ''Error sending message:'', Reject p e]"
      "by_failure p (Reject p e)" "\<not> by_response p (Reject p e)" "\<not> by_timeout p (Reject p e)"
  using assms
proof (cases rule: move.cases)
  case move_quiet
  then show ?thesis by (rule quiet)
next
  case (move_request request timeout)
  show ?thesis
  proof (cases "nullish request")
    case True
    with move_request show ?thesis
      by (intro null_request) (simp_all add: sendRequest_nullish reject_def)
  next
    case False
    note f = sendRequest_fields [OF False move_request]
    show ?thesis
      by (rule request [OF f(1,2) closures_request [OF False move_request] f(4,5,6,8)]) simp
  qed
next
  case (move_handled rid h response s1)
  note f = call_handler_fields [OF move_handled(3)]
  from call_handler_settled [OF move_handled(3)]
  obtain e where e: "trace s1 = trace s @ [e]"
      "(\<exists>v. e = Resolve (h_promise h) v) \<or> (\<exists>c m. e = Reject (h_promise h) (RpcError c m))"
    by auto
  show ?thesis
  proof (rule settle [OF handler_closure [OF move_handled(2)]])
    show "has_handler (h_promise h) s \<or> has_timer (h_promise h) s"
      using move_handled(2) by (auto simp: has_handler_def)
    show "trace s' = trace s @ [e]" by (simp add: move_handled(1) e(1))
    from e(2) show "settles (h_promise h) e" by auto
    from e(2) show "by_response (h_promise h) e \<or> by_timeout (h_promise h) e" by auto
  qed (simp_all add: move_handled(1) f)
next
  case (move_threw rid h response e)
  note f = call_handler_fields [OF move_threw(2)]
  show ?thesis
    by (rule threw [OF move_threw(1) f(1,2,3,4,5,6) call_handler_threw [OF move_threw(2)]])
next
  case (move_timer t)
  show ?thesis
  proof (cases "timers s t")
    case None
    with move_timer have "quiet s s'" by (simp add: timer_fires_def quiet_refl)
    then show ?thesis by (rule quiet)
  next
    case (Some c)
    note f = timer_fires_fields [OF Some move_timer]
    show ?thesis
    proof (rule settle [OF timer_closure [OF Some]])
      show "has_handler (t_promise c) s \<or> has_timer (t_promise c) s"
        using Some by (auto simp: has_timer_def)
      show "trace s' = trace s @ [Reject (t_promise c) (TimeoutError (t_timeoutMs c))]"
        by (rule f(7))
    qed (simp_all add: f)
  qed
next
  case (move_fetch f r)
  show ?thesis
  proof (cases rule: fetch_settles_cases [of s f r])
    case quiet
    with move_fetch have "quiet s s'" by simp
    then show ?thesis by (rule that(1))
  next
    case (failed rid t p e)
    note g = fetch_settles_fields [OF failed move_fetch]
    from send_failure_cases [OF failed(2)]
    have "by_failure p (Reject p e)" "\<not> by_response p (Reject p e)" "\<not> by_timeout p (Reject p e)"
      by auto
    then show ?thesis by (rule that(6) [OF failed(1) g])
  qed
qed

section \<open>One promise for each timer and each id\<close>

text \<open>
  Closures are only ever removed, except by \<open>sendRequest\<close>, which adds those of a
  new promise under a new timer and, below \<open>2^53\<close>, a new id.
\<close>

lemma removed_closures:
  assumes "messageHandlers s' = (messageHandlers s)(rid := None) \<or> messageHandlers s' = messageHandlers s"
      and "timers s' = (timers s)(t := None) \<or> timers s' = timers s"
      and "sends s' = (sends s)(f := None) \<or> sends s' = sends s"
  shows "closures s' \<subseteq> closures s"
  by (rule closures_mono) (use assms in \<open>auto split: if_splits\<close>)

lemma keys_ok_constructor: "keys_ok (constructor url)"
  by (simp add: keys_ok_def closures_def catches_def constructor_def)

lemma keys_ok_subset:
  assumes ok: "keys_ok s" and sub: "closures s' \<subseteq> closures s"
      and le: "nextRequestId s \<le> nextRequestId s'"
      and lt: "nextRequestId s' < 9007199254740992 \<Longrightarrow> nextRequestId s < 9007199254740992"
  shows "keys_ok s'"
  unfolding keys_ok_def
proof (intro conjI allI impI)
  fix rid t p rid' p'
  assume "(rid, t, p) \<in> closures s' \<and> (rid', t, p') \<in> closures s'"
  with sub have "(rid, t, p) \<in> closures s \<and> (rid', t, p') \<in> closures s" by blast
  with ok show "p' = p" unfolding keys_ok_def by blast
next
  fix rid t p
  assume b: "nextRequestId s' < 9007199254740992" and "(rid, t, p) \<in> closures s'"
  with sub have "(rid, t, p) \<in> closures s" by blast
  with ok lt [OF b] have "rid < nextRequestId s" unfolding keys_ok_def by blast
  with le show "rid < nextRequestId s'" by simp
next
  fix rid t p t' p'
  assume b: "nextRequestId s' < 9007199254740992"
     and "(rid, t, p) \<in> closures s' \<and> (rid, t', p') \<in> closures s'"
  with sub have "(rid, t, p) \<in> closures s \<and> (rid, t', p') \<in> closures s" by blast
  with ok lt [OF b] show "p' = p" unfolding keys_ok_def by blast
qed

lemma keys_ok_insert:
  assumes ok: "keys_ok s" and c_ok: "closures_ok s"
      and sub: "closures s' \<subseteq> insert (nextRequestId s, nextTimer s, nextPromise s) (closures s)"
      and nr: "nextRequestId s' = js_incr (nextRequestId s)"
  shows "keys_ok s'"
  unfolding keys_ok_def
proof (intro conjI allI impI)
  fix rid t p rid' p'
  assume a: "(rid, t, p) \<in> closures s' \<and> (rid', t, p') \<in> closures s'"
  from c_ok have old: "\<And>r u q. (r, u, q) \<in> closures s \<Longrightarrow> u < nextTimer s"
    by (simp add: closures_ok_def)
  from a sub
  have 1: "(rid, t, p) = (nextRequestId s, nextTimer s, nextPromise s) \<or> (rid, t, p) \<in> closures s"
   and 2: "(rid', t, p') = (nextRequestId s, nextTimer s, nextPromise s) \<or> (rid', t, p') \<in> closures s"
    by blast+
  from 1 2 old have "(p = nextPromise s \<and> p' = nextPromise s)
                     \<or> ((rid, t, p) \<in> closures s \<and> (rid', t, p') \<in> closures s)"
    by auto
  with ok show "p' = p" unfolding keys_ok_def by blast
next
  fix rid t p
  assume b: "nextRequestId s' < 9007199254740992" and a: "(rid, t, p) \<in> closures s'"
  from b nr js_incr_below [of "nextRequestId s"]
  have lt: "nextRequestId s < 9007199254740992" and eq: "nextRequestId s' = nextRequestId s + 1"
    by simp_all
  from a sub
  have "(rid, t, p) = (nextRequestId s, nextTimer s, nextPromise s) \<or> (rid, t, p) \<in> closures s"
    by blast
  moreover from ok lt have "\<And>r u q. (r, u, q) \<in> closures s \<Longrightarrow> r < nextRequestId s"
    unfolding keys_ok_def by blast
  ultimately have "rid \<le> nextRequestId s" by (auto dest: less_imp_le)
  with eq show "rid < nextRequestId s'" by simp
next
  fix rid t p t' p'
  assume b: "nextRequestId s' < 9007199254740992"
     and a: "(rid, t, p) \<in> closures s' \<and> (rid, t', p') \<in> closures s'"
  from b nr js_incr_below [of "nextRequestId s"]
  have lt: "nextRequestId s < 9007199254740992" by simp
  with ok have old: "\<And>r u q. (r, u, q) \<in> closures s \<Longrightarrow> r < nextRequestId s"
    unfolding keys_ok_def by blast
  from a sub
  have 1: "(rid, t, p) = (nextRequestId s, nextTimer s, nextPromise s) \<or> (rid, t, p) \<in> closures s"
   and 2: "(rid, t', p') = (nextRequestId s, nextTimer s, nextPromise s) \<or> (rid, t', p') \<in> closures s"
    by blast+
  from 1 2 old have "(p = nextPromise s \<and> p' = nextPromise s)
                     \<or> ((rid, t, p) \<in> closures s \<and> (rid, t', p') \<in> closures s)"
    by auto
  with ok lt show "p' = p" unfolding keys_ok_def by blast
qed

lemma move_keys_ok:
  assumes "move s s'" and c_ok: "closures_ok s" and ok: "keys_ok s"
  shows "keys_ok s'"
  using assms(1)
proof (cases rule: move_cases_full)
  case quiet
  show ?thesis
    by (rule keys_ok_subset [OF ok quiet_closures [OF quiet]]) (use quiet in \<open>simp_all add: quiet_def\<close>)
next
  case null_request
  have "closures s' \<subseteq> closures s"
    by (rule removed_closures [where rid = 0 and t = 0 and f = 0]) (simp_all add: null_request)
  then show ?thesis
    by (rule keys_ok_subset [OF ok])
       (use js_incr_mono js_incr_below in \<open>simp_all add: null_request\<close>)
next
  case (request ms e)
  show ?thesis by (rule keys_ok_insert [OF ok c_ok request(3,6)])
next
  case (settle rid t p e)
  have "closures s' \<subseteq> closures s"
    by (rule removed_closures [where rid = rid and t = t and f = 0]) (simp_all add: settle)
  then show ?thesis by (rule keys_ok_subset [OF ok]) (simp_all add: settle)
next
  case (threw rid h)
  have "closures s' \<subseteq> closures s"
    by (rule removed_closures [where rid = rid and t = "h_timeoutId h" and f = 0])
       (simp_all add: threw)
  then show ?thesis by (rule keys_ok_subset [OF ok]) (simp_all add: threw)
next
  case (failed f rid t p e)
  have "closures s' \<subseteq> closures s"
    by (rule removed_closures [where rid = rid and t = t and f = f]) (simp_all add: failed)
  then show ?thesis by (rule keys_ok_subset [OF ok]) (simp_all add: failed)
qed

section \<open>The outcome of a promise\<close>

text \<open>
  The outcome is the first settlement in the trace, so it stays once it is there. What
  settles a promise removes its handler and its timer in the same move; a handler or a
  timer that settles a promise finds it unsettled.
\<close>

lemma settles_same: "settles p e \<Longrightarrow> settles q e \<Longrightarrow> q = p"
  by (cases e) simp_all

lemma by_failure_settles: "by_failure p e \<Longrightarrow> settles p e"
  by (cases "(p, e)" rule: by_failure.cases) simp_all

lemma by_failure_no_path: "by_failure p e \<Longrightarrow> \<not> by_response q e \<and> \<not> by_timeout q e"
  by (cases "(p, e)" rule: by_failure.cases) simp_all

lemma find_filter_settle:
  "find (settles p) (filter is_settle tr) = find (settles p) tr"
  by (induction tr) (auto dest: settles_is_settle)

lemma quiet_outcome: "quiet s s' \<Longrightarrow> outcome p s' = outcome p s"
  unfolding outcome_def quiet_def
  using find_filter_settle [of p "trace s'"] find_filter_settle [of p "trace s"] by simp

lemma find_append_Some: "find P xs = Some x \<Longrightarrow> find P (xs @ ys) = Some x"
  by (induction xs) (auto split: if_splits)

lemma find_append_unsettled: "find P xs = None \<Longrightarrow> find P (xs @ ys) = find P ys"
  by (induction xs) (auto split: if_splits)

lemma outcome_append:
  "trace s' = trace s @ es \<Longrightarrow> outcome p s = Some e \<Longrightarrow> outcome p s' = Some e"
  by (simp add: outcome_def find_append_Some)

lemma outcome_append_None:
  "trace s' = trace s @ es \<Longrightarrow> outcome p s = None \<Longrightarrow> outcome p s' = find (settles p) es"
  by (simp add: outcome_def find_append_unsettled)

lemma outcome_None: "outcome p s = None \<longleftrightarrow> (\<forall>e \<in> set (trace s). \<not> settles p e)"
  by (auto simp: outcome_def find_None_iff)

lemma outcome_Some: "outcome p s = Some e \<Longrightarrow> e \<in> set (trace s) \<and> settles p e"
  by (auto simp: outcome_def find_Some_iff)

lemma move_trace:
  assumes "move s s'"
  obtains (quiet) "quiet s s'" | (more) es where "trace s' = trace s @ es"
  using assms
proof (cases rule: move_cases_full)
  case (threw rid h)
  then have "trace s' = trace s @ []" by simp
  then show ?thesis by (rule more)
qed (auto intro: quiet more)

lemma move_outcome:
  assumes "move s s'" and "outcome p s = Some e"
  shows "outcome p s' = Some e"
  using assms(1)
proof (cases rule: move_trace)
  case quiet
  with assms(2) show ?thesis by (simp add: quiet_outcome)
next
  case (more es)
  then show ?thesis using assms(2) by (rule outcome_append)
qed

lemma moves_outcome:
  "move\<^sup>*\<^sup>* s s' \<Longrightarrow> outcome p s = Some e \<Longrightarrow> outcome p s' = Some e"
  by (induction rule: rtranclp_induct) (auto intro: move_outcome)

lemma run_outcome: "outcome p s = Some e \<Longrightarrow> outcome p (run evs s) = Some e"
  by (rule moves_outcome [OF run_moves])

lemma outcomes_ok_constructor: "outcomes_ok (constructor url)"
  by (simp add: outcomes_ok_def constructor_def responses_def timeouts_def)

lemma outcomes_ok_over:
  "outcomes_ok s \<Longrightarrow> e \<in> set (trace s) \<Longrightarrow> settles p e \<Longrightarrow> over p s"
  unfolding outcomes_ok_def by blast

lemma outcomes_ok_known:
  "outcomes_ok s \<Longrightarrow> e \<in> set (trace s) \<Longrightarrow> settles p e
   \<Longrightarrow> by_response p e \<or> by_timeout p e \<or> by_failure p e"
  unfolding outcomes_ok_def by blast

lemma outcomes_ok_first:
  "outcomes_ok s \<Longrightarrow> 0 < responses p s + timeouts p s
   \<Longrightarrow> \<exists>e. outcome p s = Some e \<and> (by_response p e \<or> by_timeout p e)"
  unfolding outcomes_ok_def by (elim conjE allE [of _ p]) simp

lemma waiting_unsettled:
  assumes "outcomes_ok s" and "has_handler p s \<or> has_timer p s"
  shows "outcome p s = None"
proof (rule ccontr)
  assume "outcome p s \<noteq> None"
  then obtain e where "outcome p s = Some e" by auto
  from outcome_Some [OF this] assms(1) have "over p s" by (auto dest: outcomes_ok_over)
  with assms(2) show False by (simp add: over_def)
qed

lemma outcomes_ok_quiet:
  assumes q: "quiet s s'" and ok: "outcomes_ok s"
  shows "outcomes_ok s'"
  unfolding outcomes_ok_def
proof (intro conjI allI impI)
  fix p e assume a: "e \<in> set (trace s') \<and> settles p e"
  with quiet_settles [OF q] have old: "e \<in> set (trace s)" "settles p e" by blast+
  from outcomes_ok_over [OF ok old] move_over [OF move_quiet [OF q]]
  show "over p s'" by blast
  from outcomes_ok_known [OF ok old]
  show "by_response p e \<or> by_timeout p e \<or> by_failure p e" .
next
  fix p assume "0 < responses p s' + timeouts p s'"
  then have "0 < responses p s + timeouts p s" by (simp add: quiet_counts [OF q])
  from outcomes_ok_first [OF ok this]
  show "\<exists>e. outcome p s' = Some e \<and> (by_response p e \<or> by_timeout p e)"
    by (simp add: quiet_outcome [OF q])
qed

lemma outcomes_ok_step:
  assumes ok: "outcomes_ok s" and mv: "move s s'"
      and tr: "trace s' = trace s @ es"
      and new: "\<And>q e. e \<in> set es \<Longrightarrow> settles q e
                  \<Longrightarrow> over q s' \<and> (by_response q e \<or> by_timeout q e \<or> by_failure q e)"
      and first: "\<And>q. 0 < counted q es
                  \<Longrightarrow> outcome q s = None
                      \<and> (\<exists>e. find (settles q) es = Some e \<and> (by_response q e \<or> by_timeout q e))"
  shows "outcomes_ok s'"
  unfolding outcomes_ok_def
proof (intro conjI allI impI)
  fix p e assume a: "e \<in> set (trace s') \<and> settles p e"
  then have s: "settles p e" by simp
  from a tr have "e \<in> set (trace s) \<or> e \<in> set es" by auto
  then have "over p s' \<and> (by_response p e \<or> by_timeout p e \<or> by_failure p e)"
  proof
    assume old: "e \<in> set (trace s)"
    from outcomes_ok_over [OF ok old s] move_over [OF mv] have "over p s'" by blast
    with outcomes_ok_known [OF ok old s] show ?thesis by simp
  next
    assume "e \<in> set es"
    then show ?thesis using s by (rule new)
  qed
  then show "over p s'" and "by_response p e \<or> by_timeout p e \<or> by_failure p e" by simp_all
next
  fix p assume pos: "0 < responses p s' + timeouts p s'"
  show "\<exists>e. outcome p s' = Some e \<and> (by_response p e \<or> by_timeout p e)"
  proof (cases "0 < counted p es")
    case True
    from first [OF True] obtain e where "outcome p s = None" "find (settles p) es = Some e"
        "by_response p e \<or> by_timeout p e" by blast
    with outcome_append_None [OF tr, of p] show ?thesis by simp
  next
    case False
    with counted_append [OF tr, of p] pos have "0 < responses p s + timeouts p s" by simp
    from outcomes_ok_first [OF ok this] obtain e where "outcome p s = Some e"
        "by_response p e \<or> by_timeout p e" by blast
    with outcome_append [OF tr, of p e] show ?thesis by simp
  qed
qed

lemma counted_pos: "0 < counted q es \<Longrightarrow> \<exists>e \<in> set es. by_response q e \<or> by_timeout q e"
proof -
  assume "0 < counted q es"
  then have "filter (by_response q) es \<noteq> [] \<or> filter (by_timeout q) es \<noteq> []"
    by (auto simp: counted_def)
  then show ?thesis by (auto simp: filter_empty_conv)
qed

lemma move_outcomes_ok:
  assumes mv: "move s s'" and c_ok: "closures_ok s" and ok: "outcomes_ok s"
  shows "outcomes_ok s'"
  using mv
proof (cases rule: move_cases_full)
  case quiet
  then show ?thesis using ok by (rule outcomes_ok_quiet)
next
  case null_request
  show ?thesis
  proof (rule outcomes_ok_step [OF ok mv null_request(7)])
    fix q e assume "e \<in> set [Reject (nextPromise s) TypeError]" and "settles q e"
    then have e: "e = Reject (nextPromise s) TypeError" and q: "q = nextPromise s" by auto
    have "\<not> has_handler q s"
    proof
      assume "has_handler q s"
      then obtain rid h where "messageHandlers s rid = Some h" "h_promise h = q"
        by (auto simp: has_handler_def)
      from closures_made [OF c_ok handler_closure [OF this(1)]] this(2) q show False by simp
    qed
    moreover have "\<not> has_timer q s"
    proof
      assume "has_timer q s"
      then obtain t c where "timers s t = Some c" "t_promise c = q"
        by (auto simp: has_timer_def)
      from closures_made [OF c_ok timer_closure [OF this(1)]] this(2) q show False by simp
    qed
    ultimately have "over q s'"
      by (simp add: over_def q null_request(4) has_handler_same [OF null_request(1)]
            has_timer_same [OF null_request(2)])
    with e q show "over q s' \<and> (by_response q e \<or> by_timeout q e \<or> by_failure q e)" by simp
  next
    fix q assume "0 < counted q [Reject (nextPromise s) TypeError]"
    then show "outcome q s = None
        \<and> (\<exists>e. find (settles q) [Reject (nextPromise s) TypeError] = Some e
              \<and> (by_response q e \<or> by_timeout q e))"
      by (simp add: counted_def)
  qed
next
  case (request ms e)
  show ?thesis
  proof (rule outcomes_ok_step [OF ok mv request(7)])
    fix q e' assume "e' \<in> set [e]" and "settles q e'"
    with request(8) show "over q s' \<and> (by_response q e' \<or> by_timeout q e' \<or> by_failure q e')"
      by (auto dest: settles_is_settle)
  next
    fix q assume "0 < counted q [e]"
    from counted_pos [OF this] request(8)
    show "outcome q s = None
        \<and> (\<exists>e'. find (settles q) [e] = Some e' \<and> (by_response q e' \<or> by_timeout q e'))"
      by (auto dest: by_response_settles by_timeout_settles settles_is_settle)
  qed
next
  case (settle rid t p e)
  have dead: "\<not> has_handler p s'" "\<not> has_timer p s'"
    by (rule closure_removed [OF c_ok settle(1,3,4)])+
  from closures_made [OF c_ok settle(1)] dead have ov: "over p s'"
    by (simp add: over_def settle(6))
  show ?thesis
  proof (rule outcomes_ok_step [OF ok mv settle(9)])
    fix q e' assume "e' \<in> set [e]" and s: "settles q e'"
    then have e': "e' = e" by simp
    with s settle(10) have "q = p" by (auto dest: settles_same)
    with ov settle(11) e'
    show "over q s' \<and> (by_response q e' \<or> by_timeout q e' \<or> by_failure q e')" by blast
  next
    fix q assume "0 < counted q [e]"
    from counted_pos [OF this] have "by_response q e \<or> by_timeout q e" by simp
    then have "settles q e" by (auto dest: by_response_settles by_timeout_settles)
    with settle(10) have q: "q = p" by (auto dest: settles_same)
    from waiting_unsettled [OF ok settle(2)] settle(10,11) q
    show "outcome q s = None
        \<and> (\<exists>e'. find (settles q) [e] = Some e' \<and> (by_response q e' \<or> by_timeout q e'))"
      by simp
  qed
next
  case (threw rid h)
  have tr: "trace s' = trace s @ []" by (simp add: threw)
  show ?thesis
    by (rule outcomes_ok_step [OF ok mv tr]) (simp_all add: counted_def)
next
  case (failed f rid t p e)
  have cl: "(rid, t, p) \<in> closures s" by (rule catch_closure [OF failed(1)])
  have dead: "\<not> has_handler p s'" "\<not> has_timer p s'"
    by (rule closure_removed [OF c_ok cl failed(2,3)])+
  from closures_made [OF c_ok cl] dead have ov: "over p s'"
    by (simp add: over_def failed(5))
  show ?thesis
  proof (rule outcomes_ok_step [OF ok mv failed(8)])
    fix q e' assume "e' \<in> set [Console Err ''Error sending message:'', Reject p e]"
       and s: "settles q e'"
    then have "e' = Reject p e" by auto
    with s ov failed(9)
    show "over q s' \<and> (by_response q e' \<or> by_timeout q e' \<or> by_failure q e')" by auto
  next
    fix q assume "0 < counted q [Console Err ''Error sending message:'', Reject p e]"
    from counted_pos [OF this] by_failure_no_path [OF failed(9), of q]
    show "outcome q s = None
        \<and> (\<exists>e'. find (settles q) [Console Err ''Error sending message:'', Reject p e] = Some e'
              \<and> (by_response q e' \<or> by_timeout q e'))"
      by auto
  qed
qed

section \<open>A promise is settled or waiting\<close>

text \<open>
  A move that removes a handler or a timer of one promise leaves those of the others,
  since no two promises share a timer or, below \<open>2^53\<close>, an id.
\<close>

lemma live_ok_constructor: "live_ok (constructor url)"
  by (simp add: live_ok_def constructor_def)

lemma live_okD:
  "live_ok s \<Longrightarrow> nextRequestId s < 9007199254740992 \<Longrightarrow> p < nextPromise s
   \<Longrightarrow> has_handler p s \<or> has_timer p s \<or> outcome p s \<noteq> None"
  unfolding live_ok_def by blast

lemma keys_ok_timer:
  "keys_ok s \<Longrightarrow> (rid, t, p) \<in> closures s \<Longrightarrow> (rid', t, p') \<in> closures s \<Longrightarrow> p' = p"
  unfolding keys_ok_def by blast

lemma keys_ok_id:
  "keys_ok s \<Longrightarrow> nextRequestId s < 9007199254740992
   \<Longrightarrow> (rid, t, p) \<in> closures s \<Longrightarrow> (rid, t', p') \<in> closures s \<Longrightarrow> p' = p"
  unfolding keys_ok_def by blast

lemma keys_ok_passed:
  "keys_ok s \<Longrightarrow> nextRequestId s < 9007199254740992
   \<Longrightarrow> (rid, t, p) \<in> closures s \<Longrightarrow> rid < nextRequestId s"
  unfolding keys_ok_def by blast

lemma others_stay:
  assumes k: "keys_ok s" and lt: "nextRequestId s < 9007199254740992"
      and cl: "(rid, t, p) \<in> closures s"
      and h: "messageHandlers s' = (messageHandlers s)(rid := None)
              \<or> messageHandlers s' = messageHandlers s"
      and tm: "timers s' = (timers s)(t := None)"
      and ne: "q \<noteq> p"
      and w: "has_handler q s \<or> has_timer q s"
  shows "has_handler q s' \<or> has_timer q s'"
  using w
proof
  assume "has_handler q s"
  then obtain j hd where j: "messageHandlers s j = Some hd" "h_promise hd = q"
    by (auto simp: has_handler_def)
  have "j \<noteq> rid"
  proof
    assume "j = rid"
    with handler_closure [OF j(1)] j(2) have "(rid, h_timeoutId hd, q) \<in> closures s" by simp
    from keys_ok_id [OF k lt cl this] ne show False by simp
  qed
  with h j have "messageHandlers s' j = Some hd" by auto
  with j(2) show ?thesis by (auto simp: has_handler_def)
next
  assume "has_timer q s"
  then obtain u c where u: "timers s u = Some c" "t_promise c = q"
    by (auto simp: has_timer_def)
  have "u \<noteq> t"
  proof
    assume "u = t"
    with timer_closure [OF u(1)] u(2) have "(t_id c, t, q) \<in> closures s" by simp
    from keys_ok_timer [OF k cl this] ne show False by simp
  qed
  with tm u have "timers s' u = Some c" by simp
  with u(2) show ?thesis by (auto simp: has_timer_def)
qed

lemma outcome_settled:
  "trace s' = trace s @ es \<Longrightarrow> e \<in> set es \<Longrightarrow> settles p e \<Longrightarrow> outcome p s' \<noteq> None"
  by (auto simp: outcome_None)

lemma outcome_kept:
  "trace s' = trace s @ es \<Longrightarrow> outcome p s \<noteq> None \<Longrightarrow> outcome p s' \<noteq> None"
  by (auto simp: outcome_None)

lemma move_live_ok:
  assumes mv: "move s s'" and c_ok: "closures_ok s" and fresh: "ids_fresh s"
      and k: "keys_ok s" and ok: "live_ok s"
  shows "live_ok s'"
  unfolding live_ok_def
proof (intro impI allI)
  fix p assume lt': "nextRequestId s' < 9007199254740992" and p: "p < nextPromise s'"
  from mv show "has_handler p s' \<or> has_timer p s' \<or> outcome p s' \<noteq> None"
  proof (cases rule: move_cases_full)
    case quiet
    with lt' p have "nextRequestId s < 9007199254740992" "p < nextPromise s"
      by (simp_all add: quiet_def)
    from live_okD [OF ok this] show ?thesis
      by (simp add: quiet_has [OF quiet] quiet_outcome [OF quiet])
  next
    case null_request
    from lt' js_incr_below [of "nextRequestId s"] have lt: "nextRequestId s < 9007199254740992"
      by (simp add: null_request)
    show ?thesis
    proof (cases "p = nextPromise s")
      case True
      have "outcome p s' \<noteq> None"
        by (rule outcome_settled [OF null_request(7), of "Reject (nextPromise s) TypeError"])
           (simp_all add: True)
      then show ?thesis by simp
    next
      case False
      with p have "p < nextPromise s" by (simp add: null_request)
      from live_okD [OF ok lt this] outcome_kept [OF null_request(7), of p] show ?thesis
        by (auto simp: has_handler_same [OF null_request(1)] has_timer_same [OF null_request(2)])
    qed
  next
    case (request ms e)
    from lt' js_incr_below [of "nextRequestId s"] have lt: "nextRequestId s < 9007199254740992"
      by (simp add: request)
    show ?thesis
    proof (cases "p = nextPromise s")
      case True
      have "has_handler p s'"
        unfolding has_handler_def request(1) True
        by (rule exI [of _ "nextRequestId s"]) simp
      then show ?thesis by simp
    next
      case False
      with p have "p < nextPromise s" by (simp add: request)
      from live_okD [OF ok lt this] consider (h) "has_handler p s" | (t) "has_timer p s"
        | (o) "outcome p s \<noteq> None" by blast
      then show ?thesis
      proof cases
        case h
        then obtain j hd where j: "messageHandlers s j = Some hd" "h_promise hd = p"
          by (auto simp: has_handler_def)
        from keys_ok_passed [OF k lt handler_closure [OF j(1)]] have "j \<noteq> nextRequestId s" by simp
        with j(1) have "messageHandlers s' j = Some hd" by (simp add: request(1))
        with j(2) show ?thesis by (auto simp: has_handler_def)
      next
        case t
        then obtain u c where u: "timers s u = Some c" "t_promise c = p"
          by (auto simp: has_timer_def)
        from c_ok timer_closure [OF u(1)] have "u < nextTimer s"
          unfolding closures_ok_def by blast
        then have "u \<noteq> nextTimer s" by simp
        with u(1) have "timers s' u = Some c" by (simp add: request(2))
        with u(2) show ?thesis by (auto simp: has_timer_def)
      next
        case o
        from outcome_kept [OF request(7) o] show ?thesis by simp
      qed
    qed
  next
    case (settle rid t q e)
    from lt' have lt: "nextRequestId s < 9007199254740992" by (simp add: settle)
    show ?thesis
    proof (cases "p = q")
      case True
      have "outcome p s' \<noteq> None"
        by (rule outcome_settled [OF settle(9), of e]) (simp_all add: True settle(10))
      then show ?thesis by simp
    next
      case False
      from p have "p < nextPromise s" by (simp add: settle)
      from live_okD [OF ok lt this] consider (w) "has_handler p s \<or> has_timer p s"
        | (o) "outcome p s \<noteq> None" by blast
      then show ?thesis
      proof cases
        case w
        from others_stay [OF k lt settle(1) disjI1 [OF settle(3)] settle(4) False w]
        show ?thesis by blast
      next
        case o
        from outcome_kept [OF settle(9) o] show ?thesis by simp
      qed
    qed
  next
    case (threw rid h)
    from lt' have lt: "nextRequestId s < 9007199254740992" by (simp add: threw)
    from p have p': "p < nextPromise s" by (simp add: threw)
    show ?thesis
    proof (cases "p = h_promise h")
      case True
      with threw(1,2) have "has_handler p s'" by (auto simp: has_handler_def)
      then show ?thesis by simp
    next
      case False
      from live_okD [OF ok lt p'] consider (w) "has_handler p s \<or> has_timer p s"
        | (o) "outcome p s \<noteq> None" by blast
      then show ?thesis
      proof cases
        case w
        from others_stay [OF k lt handler_closure [OF threw(1)] disjI2 [OF threw(2)] threw(3)
               False w]
        show ?thesis by blast
      next
        case o
        then show ?thesis by (simp add: outcome_def threw(8))
      qed
    qed
  next
    case (failed f rid t q e)
    from lt' have lt: "nextRequestId s < 9007199254740992" by (simp add: failed)
    show ?thesis
    proof (cases "p = q")
      case True
      have "outcome p s' \<noteq> None"
        by (rule outcome_settled [OF failed(8), of "Reject q e"]) (simp_all add: True)
      then show ?thesis by simp
    next
      case False
      from p have "p < nextPromise s" by (simp add: failed)
      from live_okD [OF ok lt this] consider (w) "has_handler p s \<or> has_timer p s"
        | (o) "outcome p s \<noteq> None" by blast
      then show ?thesis
      proof cases
        case w
        from others_stay [OF k lt catch_closure [OF failed(1)] disjI1 [OF failed(2)] failed(3)
               False w]
        show ?thesis by blast
      next
        case o
        from outcome_kept [OF failed(8) o] show ?thesis by simp
      qed
    qed
  qed
qed

lemma moves_all_ok:
  "move\<^sup>*\<^sup>* s s' \<Longrightarrow>
   closures_ok s \<and> settled_ok s \<and> ids_fresh s \<and> keys_ok s \<and> outcomes_ok s \<and> live_ok s \<Longrightarrow>
   closures_ok s' \<and> settled_ok s' \<and> ids_fresh s' \<and> keys_ok s' \<and> outcomes_ok s' \<and> live_ok s'"
proof (induction rule: rtranclp_induct)
  case base
  then show ?case by simp
next
  case (step y z)
  then have y: "closures_ok y" "settled_ok y" "ids_fresh y" "keys_ok y" "outcomes_ok y"
      "live_ok y" by simp_all
  note m = step(2)
  show ?case
    by (intro conjI move_closures_ok [OF m y(1)] move_settled_ok [OF m y(1,2)]
          move_ids_fresh [OF m y(3)] move_keys_ok [OF m y(1,4)] move_outcomes_ok [OF m y(1,5)]
          move_live_ok [OF m y(1,3,4,6)])
qed

lemma reachable_all_ok:
  assumes "s = run evs (constructor url)"
  shows "closures_ok s" "settled_ok s" "ids_fresh s" "keys_ok s" "outcomes_ok s" "live_ok s"
  using moves_all_ok [OF run_moves, of "constructor url" evs]
    closures_ok_constructor settled_ok_constructor ids_fresh_constructor keys_ok_constructor
    outcomes_ok_constructor live_ok_constructor assms
  by simp_all

section \<open>What a message can settle\<close>












section \<open>One resolution for each request\<close>


lemma fresh_id:
  assumes "ids_fresh s" and "nextRequestId s < 9007199254740992"
  shows "messageHandlers s (nextRequestId s) = None"
proof (cases "messageHandlers s (nextRequestId s)")
  case None
  then show ?thesis .
next
  case (Some h)
  with assms have "nextRequestId s < nextRequestId s" unfolding ids_fresh_def by blast
  then show ?thesis by simp
qed







section \<open>Batches\<close>

lemma forEach_append:
  "forEach (xs @ ys) s =
     (case forEach xs s of (Some e, s') \<Rightarrow> (Some e, s') | (None, s') \<Rightarrow> forEach ys s')"
  by (induction xs arbitrary: s) (auto split: prod.splits option.splits)

lemma forEach_fold:
  "fst (forEach ms s) = None \<Longrightarrow>
   snd (forEach ms s) = fold (\<lambda>m s. snd (handleIncomingMessage m s)) ms s"
  by (induction ms arbitrary: s) (auto split: prod.splits option.splits)

lemma unhandled_discarded:
  "unhandled m \<Longrightarrow> handleIncomingMessage m s = (None, console Warn ''Unhandled message:'' s)"
  by (auto simp: unhandled_def handleIncomingMessage_dispatch dispatch_def Let_def)

text \<open>
  What holds of a batch. Its elements are handled in the order of the array, each in the
  state the one before it left, up to the first element whose handling raises an
  exception: a batch of two parts is the first part and then, if no element of it raised,
  the second; a batch in which nothing raised is the fold of its elements. An element
  that is not \<open>null\<close> and has none of the shapes known is logged and dropped, and the
  elements after it are handled.
\<close>

lemma batch_in_array_order:
  "handleIncomingMessage (JArr (xs @ ys)) s
     = (case handleIncomingMessage (JArr xs) s of
          (Some e, s') \<Rightarrow> (Some e, s')
        | (None, s') \<Rightarrow> handleIncomingMessage (JArr ys) s')
   \<and> (fst (handleIncomingMessage (JArr xs) s) = None \<longrightarrow>
        snd (handleIncomingMessage (JArr xs) s)
          = fold (\<lambda>m s. snd (handleIncomingMessage m s)) xs s)
   \<and> (unhandled m \<longrightarrow>
        handleIncomingMessage (JArr (m # ys)) s
          = handleIncomingMessage (JArr ys) (console Warn ''Unhandled message:'' s))"
  by (auto simp: forEach_append forEach_fold unhandled_discarded
           split: prod.splits option.splits)

text \<open>
  So it is for the batch of a response for request 1, an object of no known shape and a
  progress notification: the promise of request 1 is resolved, the object is logged and
  dropped, and the listener of the progress event is called.
\<close>

lemma batch_in_array_order_example:
  "unhandled (JObj [(''foo'', JStr ''bar'')])
   \<and> handleIncomingMessage
       (JArr [JObj [(''jsonrpc'', JStr ''2.0''), (''id'', JNum 1),
                    (''result'', JObj [(''tools'', JArr [])])],
              JObj [(''foo'', JStr ''bar'')],
              JObj [(''jsonrpc'', JStr ''2.0''), (''method'', JStr ''notifications/progress''),
                    (''params'', JObj [(''progressToken'', JStr ''1700000000000''),
                                       (''progress'', JNum 50), (''total'', JNum 100)])]])
       (snd (sendRequest (JObj [(''method'', JStr ''tools/list'')]) None
               (on ''progress'' 7 (constructor ''http://localhost:8080''))))
     = (None,
        (on ''progress'' 7 (constructor ''http://localhost:8080''))
          \<lparr>messageHandlers := Map.empty, nextRequestId := 2,
           timers := Map.empty, nextTimer := 2, nextPromise := 1,
           sends := [0 \<mapsto> SendRequestCatch 1 1 0], nextFetch := 1,
           trace :=
             [Fetch 0 ''http://localhost:8080/message''
                (JObj [(''jsonrpc'', JStr ''2.0''), (''id'', JNum 1),
                       (''method'', JStr ''tools/list''), (''params'', JObj [])]),
              Resolve 0 (JObj [(''tools'', JArr [])]),
              Console Warn ''Unhandled message:'',
              Console Log ''Progress: '',
              Callback 7 (JObj [(''token'', JStr ''1700000000000''),
                                (''progress'', JNum 50), (''total'', JNum 100),
                                (''message'', JUndefined)])]\<rparr>)"
proof -
  let ?r = "JObj [(''jsonrpc'', JStr ''2.0''), (''id'', JNum 1),
                  (''result'', JObj [(''tools'', JArr [])])]"
  let ?m = "JObj [(''foo'', JStr ''bar'')]"
  let ?n = "JObj [(''jsonrpc'', JStr ''2.0''), (''method'', JStr ''notifications/progress''),
                  (''params'', JObj [(''progressToken'', JStr ''1700000000000''),
                                     (''progress'', JNum 50), (''total'', JNum 100)])]"
  let ?s = "snd (sendRequest (JObj [(''method'', JStr ''tools/list'')]) None
                  (on ''progress'' 7 (constructor ''http://localhost:8080'')))"
  have u: "unhandled ?m" by (simp add: unhandled_def)
  note a = batch_in_array_order [of "[?r]" "[?m, ?n]" ?s, THEN conjunct1]
  note b = batch_in_array_order [where m = ?m and ys = "[?n]",
             THEN conjunct2, THEN conjunct2, THEN mp, OF u]
  have first: "handleIncomingMessage (JArr [?r]) ?s
     = (None, (on ''progress'' 7 (constructor ''http://localhost:8080''))
          \<lparr>messageHandlers := Map.empty, nextRequestId := 2,
           timers := Map.empty, nextTimer := 2, nextPromise := 1,
           sends := [0 \<mapsto> SendRequestCatch 1 1 0], nextFetch := 1,
           trace :=
             [Fetch 0 ''http://localhost:8080/message''
                (JObj [(''jsonrpc'', JStr ''2.0''), (''id'', JNum 1),
                       (''method'', JStr ''tools/list''), (''params'', JObj [])]),
              Resolve 0 (JObj [(''tools'', JArr [])])]\<rparr>)"
    by (simp add: run_defs on_def)
  have last: "handleIncomingMessage (JArr [?n])
       (console Warn ''Unhandled message:''
          ((on ''progress'' 7 (constructor ''http://localhost:8080''))
          \<lparr>messageHandlers := Map.empty, nextRequestId := 2,
           timers := Map.empty, nextTimer := 2, nextPromise := 1,
           sends := [0 \<mapsto> SendRequestCatch 1 1 0], nextFetch := 1,
           trace :=
             [Fetch 0 ''http://localhost:8080/message''
                (JObj [(''jsonrpc'', JStr ''2.0''), (''id'', JNum 1),
                       (''method'', JStr ''tools/list''), (''params'', JObj [])]),
              Resolve 0 (JObj [(''tools'', JArr [])])]\<rparr>))
     = (None,
        (on ''progress'' 7 (constructor ''http://localhost:8080''))
          \<lparr>messageHandlers := Map.empty, nextRequestId := 2,
           timers := Map.empty, nextTimer := 2, nextPromise := 1,
           sends := [0 \<mapsto> SendRequestCatch 1 1 0], nextFetch := 1,
           trace :=
             [Fetch 0 ''http://localhost:8080/message''
                (JObj [(''jsonrpc'', JStr ''2.0''), (''id'', JNum 1),
                       (''method'', JStr ''tools/list''), (''params'', JObj [])]),
              Resolve 0 (JObj [(''tools'', JArr [])]),
              Console Warn ''Unhandled message:'',
              Console Log ''Progress: '',
              Callback 7 (JObj [(''token'', JStr ''1700000000000''),
                                (''progress'', JNum 50), (''total'', JNum 100),
                                (''message'', JUndefined)])]\<rparr>)"
    by (simp add: dispatch_def handleNotification_def or_else_def emit_def console_def on_def
          constructor_def)
  from a have "handleIncomingMessage (JArr ([?r] @ [?m, ?n])) ?s
      = handleIncomingMessage (JArr [?m, ?n])
          ((on ''progress'' 7 (constructor ''http://localhost:8080''))
          \<lparr>messageHandlers := Map.empty, nextRequestId := 2,
           timers := Map.empty, nextTimer := 2, nextPromise := 1,
           sends := [0 \<mapsto> SendRequestCatch 1 1 0], nextFetch := 1,
           trace :=
             [Fetch 0 ''http://localhost:8080/message''
                (JObj [(''jsonrpc'', JStr ''2.0''), (''id'', JNum 1),
                       (''method'', JStr ''tools/list''), (''params'', JObj [])]),
              Resolve 0 (JObj [(''tools'', JArr [])])]\<rparr>)"
    by (simp only: first prod.case option.case)
  also note b
  also note last
  finally have whole: "handleIncomingMessage (JArr ([?r] @ [?m, ?n])) ?s
     = (None,
        (on ''progress'' 7 (constructor ''http://localhost:8080''))
          \<lparr>messageHandlers := Map.empty, nextRequestId := 2,
           timers := Map.empty, nextTimer := 2, nextPromise := 1,
           sends := [0 \<mapsto> SendRequestCatch 1 1 0], nextFetch := 1,
           trace :=
             [Fetch 0 ''http://localhost:8080/message''
                (JObj [(''jsonrpc'', JStr ''2.0''), (''id'', JNum 1),
                       (''method'', JStr ''tools/list''), (''params'', JObj [])]),
              Resolve 0 (JObj [(''tools'', JArr [])]),
              Console Warn ''Unhandled message:'',
              Console Log ''Progress: '',
              Callback 7 (JObj [(''token'', JStr ''1700000000000''),
                                (''progress'', JNum 50), (''total'', JNum 100),
                                (''message'', JUndefined)])]\<rparr>)" .
  have app: "[?r] @ [?m, ?n] = [?r, ?m, ?n]" by simp
  from whole [unfolded app] u show ?thesis by (rule conjI [rotated])
qed

text \<open>
  C2, where the code departs from it: a malformed element can keep the elements after
  it from being handled. \<open>handleIncomingMessage\<close> reads \<open>message.method\<close> of an
  element that is \<open>null\<close>, and \<open>handleNotification\<close> reads
  \<open>notification.params.progress\<close> of a progress notification that has no params;
  each raises an exception, which leaves \<open>forEach\<close>. With a listener of the progress
  event registered, the batch of \<open>null\<close> and a progress notification, and the batch
  of a progress notification without params and one with params, leave only the error
  logged by the listener of the stream; the progress notification alone calls the
  listener of the progress event.
\<close>

theorem null_element_ends_the_batch:
  "handleIncomingMessage
     (JArr [JNull,
            JObj [(''jsonrpc'', JStr ''2.0''), (''method'', JStr ''notifications/progress''),
                  (''params'', JObj [(''progressToken'', JStr ''1700000000000''),
                                     (''progress'', JNum 50), (''total'', JNum 100)])]])
     (on ''progress'' 7 (constructor ''http://localhost:8080''))
     = (Some TypeError, on ''progress'' 7 (constructor ''http://localhost:8080''))
   \<and> trace (step (MessageEvent (Some
       (JArr [JNull,
              JObj [(''jsonrpc'', JStr ''2.0''), (''method'', JStr ''notifications/progress''),
                    (''params'', JObj [(''progressToken'', JStr ''1700000000000''),
                                       (''progress'', JNum 50), (''total'', JNum 100)])]])))
       (on ''progress'' 7 (constructor ''http://localhost:8080'')))
     = [Console Err ''Error parsing message:'']
   \<and> trace (step (MessageEvent (Some
       (JArr [JObj [(''jsonrpc'', JStr ''2.0''), (''method'', JStr ''notifications/progress'')],
              JObj [(''jsonrpc'', JStr ''2.0''), (''method'', JStr ''notifications/progress''),
                    (''params'', JObj [(''progressToken'', JStr ''1700000000000''),
                                       (''progress'', JNum 50), (''total'', JNum 100)])]])))
       (on ''progress'' 7 (constructor ''http://localhost:8080'')))
     = [Console Err ''Error parsing message:'']
   \<and> trace (step (MessageEvent (Some
       (JArr [JObj [(''jsonrpc'', JStr ''2.0''), (''method'', JStr ''notifications/progress''),
                    (''params'', JObj [(''progressToken'', JStr ''1700000000000''),
                                       (''progress'', JNum 50), (''total'', JNum 100)])]])))
       (on ''progress'' 7 (constructor ''http://localhost:8080'')))
     = [Console Log ''Progress: '',
        Callback 7 (JObj [(''token'', JStr ''1700000000000''),
                          (''progress'', JNum 50), (''total'', JNum 100),
                          (''message'', JUndefined)])]"
  by (simp add: message_event_def dispatch_def handleNotification_def or_else_def emit_def
        console_def on_def constructor_def)

section \<open>Responses\<close>

text \<open>
  C3, where the code departs from it: with request 1 waiting, the responses
  \<open>{jsonrpc: "2.0", id: 1, result: 0}\<close> and \<open>{jsonrpc: "2.0", id: 1, result: null}\<close>
  are not taken for responses. The test \<open>message.result || message.error\<close> is
  false for them, the message is logged as unhandled, and the handler of request 1
  stays where it was, uncalled.
\<close>

theorem falsy_result_is_unhandled:
  "messageHandlers
     (snd (sendRequest (JObj [(''method'', JStr ''tools/list'')]) None
             (constructor ''http://localhost:8080''))) 1
     = Some \<lparr>h_timeoutId = 1, h_promise = 0\<rparr>
   \<and> handleIncomingMessage
       (JObj [(''jsonrpc'', JStr ''2.0''), (''id'', JNum 1), (''result'', JNum 0)])
       (snd (sendRequest (JObj [(''method'', JStr ''tools/list'')]) None
               (constructor ''http://localhost:8080'')))
     = (None, console Warn ''Unhandled message:''
                (snd (sendRequest (JObj [(''method'', JStr ''tools/list'')]) None
                        (constructor ''http://localhost:8080''))))
   \<and> handleIncomingMessage
       (JObj [(''jsonrpc'', JStr ''2.0''), (''id'', JNum 1), (''result'', JNull)])
       (snd (sendRequest (JObj [(''method'', JStr ''tools/list'')]) None
               (constructor ''http://localhost:8080'')))
     = (None, console Warn ''Unhandled message:''
                (snd (sendRequest (JObj [(''method'', JStr ''tools/list'')]) None
                        (constructor ''http://localhost:8080''))))"
  by (simp add: sendRequest_def constructor_def setTimeout_def sendMessage_def js_incr_def
        dispatch_def or_else_def Let_def)

section \<open>Progress tokens and request ids\<close>

lemma callTool_progress_trace:
  assumes "connected s" and "withProgress = JUndefined \<or> truthy withProgress"
  shows "trace (snd (callTool name args withProgress now s))
           = trace s @ [Fetch (nextFetch s) (endpoint s)
                (JObj [(''jsonrpc'', JStr ''2.0''),
                       (''id'', JNum (nextRequestId s)),
                       (''method'', JStr ''tools/call''),
                       (''params'',
                        JObj [(''name'', name),
                              (''arguments'', if args = JUndefined then JObj [] else args),
                              (''_meta'', JObj [(''progressToken'', JStr (decimal now))])])])]"
  using assms by (auto simp: callTool_connected sendRequest_trace or_else_def)

text \<open>
  C4, as the code has it. A call of \<open>callTool\<close> that asks for progress sends one
  \<open>tools/call\<close> request whose \<open>params._meta.progressToken\<close> is the clock of the
  call in decimal digits, so two calls at different clock readings carry different
  tokens. Two such calls, one after the other in a state a run can reach with the
  counter below \<open>2^53\<close>, use the ids \<open>n\<close> and \<open>n + 1\<close>, and neither id has an
  entry in \<open>messageHandlers\<close> when it is taken.
\<close>

theorem progress_token_is_the_clock:
  assumes reach: "s = run evs (constructor url)"
      and conn: "connected s"
      and below: "nextRequestId s < 9007199254740992"
      and wp: "withProgress = JUndefined \<or> truthy withProgress"
      and wp': "withProgress' = JUndefined \<or> truthy withProgress'"
      and s1: "s1 = snd (callTool name args withProgress now s)"
      and s2: "s2 = snd (callTool name' args' withProgress' now' s1)"
  shows "trace s1
           = trace s @ [Fetch (nextFetch s) (endpoint s)
                (JObj [(''jsonrpc'', JStr ''2.0''),
                       (''id'', JNum (nextRequestId s)),
                       (''method'', JStr ''tools/call''),
                       (''params'',
                        JObj [(''name'', name),
                              (''arguments'', if args = JUndefined then JObj [] else args),
                              (''_meta'', JObj [(''progressToken'', JStr (decimal now))])])])]
       \<and> trace s2
           = trace s1 @ [Fetch (Suc (nextFetch s)) (endpoint s)
                (JObj [(''jsonrpc'', JStr ''2.0''),
                       (''id'', JNum (nextRequestId s + 1)),
                       (''method'', JStr ''tools/call''),
                       (''params'',
                        JObj [(''name'', name'),
                              (''arguments'', if args' = JUndefined then JObj [] else args'),
                              (''_meta'', JObj [(''progressToken'', JStr (decimal now'))])])])]
       \<and> messageHandlers s (nextRequestId s) = None
       \<and> messageHandlers s1 (nextRequestId s + 1) = None
       \<and> (decimal now = decimal now' \<longleftrightarrow> now = now')"
proof -
  let ?r = "JObj [(''method'', JStr ''tools/call''),
                  (''params'',
                   JObj ([(''name'', name),
                          (''arguments'', if args = JUndefined then JObj [] else args)]
                         @ (if withProgress = JUndefined \<or> truthy withProgress
                            then [(''_meta'', JObj [(''progressToken'', JStr (decimal now))])]
                            else [])))]"
  from s1 conn have s1': "s1 = snd (sendRequest ?r None s)" by (simp add: callTool_connected)
  have nn: "\<not> nullish ?r" by simp
  note f = sendRequest_fields [OF nn s1']
  from below have n1: "nextRequestId s1 = nextRequestId s + 1" by (simp add: f(6) js_incr_def)
  have c1: "connected s1" by (simp add: s1' sendRequest_connected conn)
  have e1: "endpoint s1 = endpoint s" by (simp add: s1' sendRequest_endpoint)
  from reach have fresh: "ids_fresh s" by (simp add: reachable_ids_fresh)
  have 1: "trace s1
           = trace s @ [Fetch (nextFetch s) (endpoint s)
                (JObj [(''jsonrpc'', JStr ''2.0''),
                       (''id'', JNum (nextRequestId s)),
                       (''method'', JStr ''tools/call''),
                       (''params'',
                        JObj [(''name'', name),
                              (''arguments'', if args = JUndefined then JObj [] else args),
                              (''_meta'', JObj [(''progressToken'', JStr (decimal now))])])])]"
    unfolding s1 by (rule callTool_progress_trace [OF conn wp])
  have 2: "trace s2
           = trace s1 @ [Fetch (Suc (nextFetch s)) (endpoint s)
                (JObj [(''jsonrpc'', JStr ''2.0''),
                       (''id'', JNum (nextRequestId s + 1)),
                       (''method'', JStr ''tools/call''),
                       (''params'',
                        JObj [(''name'', name'),
                              (''arguments'', if args' = JUndefined then JObj [] else args'),
                              (''_meta'', JObj [(''progressToken'', JStr (decimal now'))])])])]"
    unfolding s2 using callTool_progress_trace [OF c1 wp', of name' args' now']
    by (simp add: f(7) e1 n1)
  have 3: "messageHandlers s (nextRequestId s) = None" by (rule fresh_id [OF fresh below])
  have 4: "messageHandlers s1 (nextRequestId s + 1) = None"
  proof (cases "messageHandlers s (nextRequestId s + 1)")
    case None
    then show ?thesis by (simp add: f(1))
  next
    case (Some h)
    with fresh below have "nextRequestId s + 1 < nextRequestId s"
      unfolding ids_fresh_def by blast
    then show ?thesis by simp
  qed
  have 5: "decimal now = decimal now' \<longleftrightarrow> now = now'"
    by (auto dest: decimal_inj)
  show ?thesis
    by (rule conjI [OF 1 conjI [OF 2 conjI [OF 3 conjI [OF 4 5]]]])
qed

theorem progress_token_is_the_clock_witness:
  "connected session
   \<and> nextRequestId session = 2
   \<and> trace (snd (callTool (JStr ''sub'') JUndefined (JBool True) 1700000000001
              (snd (callTool (JStr ''add'') JUndefined JUndefined 1700000000000 session))))
     = trace session
       @ [Fetch 2 ''http://localhost:8080/message?sessionId=1''
            (JObj [(''jsonrpc'', JStr ''2.0''), (''id'', JNum 2),
                   (''method'', JStr ''tools/call''),
                   (''params'',
                    JObj [(''name'', JStr ''add''), (''arguments'', JObj []),
                          (''_meta'', JObj [(''progressToken'', JStr ''1700000000000'')])])]),
          Fetch 3 ''http://localhost:8080/message?sessionId=1''
            (JObj [(''jsonrpc'', JStr ''2.0''), (''id'', JNum 3),
                   (''method'', JStr ''tools/call''),
                   (''params'',
                    JObj [(''name'', JStr ''sub''), (''arguments'', JObj []),
                          (''_meta'', JObj [(''progressToken'', JStr ''1700000000001'')])])])]
   \<and> messageHandlers session 2 = None
   \<and> messageHandlers (snd (callTool (JStr ''add'') JUndefined JUndefined 1700000000000 session)) 3
     = None"
proof -
  have c: "connected session" and n: "nextRequestId session = 2"
    and f: "nextFetch session = 2"
    and e: "endpoint session = ''http://localhost:8080/message?sessionId=1''"
    by (simp_all add: session_value endpoint_def)
  have b: "nextRequestId session < 9007199254740992" by (simp add: n)
  have d: "decimal 1700000000000 = ''1700000000000''" "decimal 1700000000001 = ''1700000000001''"
    by (simp_all add: decimal.simps digit_def)
  note th = progress_token_is_the_clock
      [OF session_def c b _ _ refl refl,
       where withProgress = JUndefined and withProgress' = "JBool True"
         and name = "JStr ''add''" and args = JUndefined and now = 1700000000000
         and name' = "JStr ''sub''" and args' = JUndefined and now' = 1700000000001,
       simplified n f e d]
  from th c n show ?thesis by simp
qed

text \<open>
  Against C4 as it is written: two calls in the same millisecond carry the same
  progress token. Their request ids differ.
\<close>

theorem same_millisecond_same_token:
  "trace (snd (callTool (JStr ''sub'') JUndefined (JBool True) 1700000000000
              (snd (callTool (JStr ''add'') JUndefined (JBool True) 1700000000000 session))))
     = trace session
       @ [Fetch 2 ''http://localhost:8080/message?sessionId=1''
            (JObj [(''jsonrpc'', JStr ''2.0''), (''id'', JNum 2),
                   (''method'', JStr ''tools/call''),
                   (''params'',
                    JObj [(''name'', JStr ''add''), (''arguments'', JObj []),
                          (''_meta'', JObj [(''progressToken'', JStr ''1700000000000'')])])]),
          Fetch 3 ''http://localhost:8080/message?sessionId=1''
            (JObj [(''jsonrpc'', JStr ''2.0''), (''id'', JNum 3),
                   (''method'', JStr ''tools/call''),
                   (''params'',
                    JObj [(''name'', JStr ''sub''), (''arguments'', JObj []),
                          (''_meta'', JObj [(''progressToken'', JStr ''1700000000000'')])])])]"
proof -
  have c: "connected session" and n: "nextRequestId session = 2"
    and f: "nextFetch session = 2"
    and e: "endpoint session = ''http://localhost:8080/message?sessionId=1''"
    by (simp_all add: session_value endpoint_def)
  have d: "decimal 1700000000000 = ''1700000000000''"
    by (simp add: decimal.simps digit_def)
  let ?s1 = "snd (callTool (JStr ''add'') JUndefined (JBool True) 1700000000000 session)"
  have t1: "trace ?s1 = trace session
       @ [Fetch 2 ''http://localhost:8080/message?sessionId=1''
            (JObj [(''jsonrpc'', JStr ''2.0''), (''id'', JNum 2),
                   (''method'', JStr ''tools/call''),
                   (''params'',
                    JObj [(''name'', JStr ''add''), (''arguments'', JObj []),
                          (''_meta'', JObj [(''progressToken'', JStr ''1700000000000'')])])])]"
    using callTool_progress_trace [OF c, of "JBool True" "JStr ''add''" JUndefined 1700000000000]
    by (simp add: n f e d)
  have c1: "connected ?s1" and n1: "nextRequestId ?s1 = 3" and f1: "nextFetch ?s1 = 3"
    and e1: "endpoint ?s1 = ''http://localhost:8080/message?sessionId=1''"
    using c n f e
    by (simp_all add: callTool_connected sendRequest_connected sendRequest_endpoint
          sendRequest_fields(6,7) [OF _ refl] js_incr_def)
  show ?thesis
    using callTool_progress_trace [OF c1, of "JBool True" "JStr ''sub''" JUndefined 1700000000000]
    by (simp add: n1 f1 e1 d t1)
qed

section \<open>Calls before the session is connected\<close>

text \<open>
  C5: while \<open>connected\<close> is false, \<open>listTools\<close> and \<open>callTool\<close> fail at once
  with the error "Not connected to MCP server" and leave the client as it was: nothing is
  sent, \<open>messageHandlers\<close> is unchanged and no request id is used.
\<close>

theorem not_connected_fails_locally:
  assumes "\<not> connected s"
  shows "listTools s = (Throws (JsError ''Not connected to MCP server''), s)
       \<and> callTool name args withProgress now s
           = (Throws (JsError ''Not connected to MCP server''), s)"
  using assms by (simp add: listTools_def callTool_def)

theorem not_connected_fails_locally_witness:
  "\<not> connected (constructor ''http://localhost:8080'')
   \<and> listTools (constructor ''http://localhost:8080'')
       = (Throws (JsError ''Not connected to MCP server''), constructor ''http://localhost:8080'')
   \<and> callTool (JStr ''add'') (JObj [(''a'', JNum 33), (''b'', JNum 55)]) (JBool False) 0
         (constructor ''http://localhost:8080'')
       = (Throws (JsError ''Not connected to MCP server''), constructor ''http://localhost:8080'')"
  using not_connected_fails_locally
          [of "constructor ''http://localhost:8080''" "JStr ''add''"
              "JObj [(''a'', JNum 33), (''b'', JNum 55)]" "JBool False" 0]
  by (simp add: constructor_def)

section \<open>Requests of the server\<close>

text \<open>
  \<open>handleServerRequest\<close> answers a request whose method is "ping" with one
  \<open>fetch\<close> of \<open>{jsonrpc: "2.0", id: <the request's id>, result: {}}\<close> and does
  nothing else: no listener is called. \<open>handleIncomingMessage\<close> hands a message to
  it when the message has a truthy id and neither a truthy result nor a truthy error.
\<close>

lemma ping_replies_once:
  assumes "field request ''method'' = JStr ''ping''"
  shows "handleServerRequest request s
           = (None, s\<lparr>trace := trace s @ [Fetch (nextFetch s) (endpoint s)
                                               (JObj [(''jsonrpc'', JStr ''2.0''),
                                                      (''id'', field request ''id''),
                                                      (''result'', JObj [])])],
                        sends := (sends s)(nextFetch s \<mapsto> Uncaught),
                        nextFetch := Suc (nextFetch s)\<rparr>)
       \<and> (truthy (field request ''id'')
            \<and> \<not> truthy (field request ''result'') \<and> \<not> truthy (field request ''error'')
          \<longrightarrow> handleIncomingMessage request s = handleServerRequest request s)"
proof -
  from assms have nn: "\<not> nullish request"
    by (cases request) simp_all
  from assms have na: "\<not> is_array request"
    by (cases request) simp_all
  have "handleServerRequest request s
           = (None, s\<lparr>trace := trace s @ [Fetch (nextFetch s) (endpoint s)
                                               (JObj [(''jsonrpc'', JStr ''2.0''),
                                                      (''id'', field request ''id''),
                                                      (''result'', JObj [])])],
                        sends := (sends s)(nextFetch s \<mapsto> Uncaught),
                        nextFetch := Suc (nextFetch s)\<rparr>)"
    using assms nn by (simp add: handleServerRequest_def sendMessage_def)
  moreover have "truthy (field request ''id'')
            \<and> \<not> truthy (field request ''result'') \<and> \<not> truthy (field request ''error'')
          \<longrightarrow> handleIncomingMessage request s = handleServerRequest request s"
    using assms nn by (simp add: handleIncomingMessage_dispatch [OF na] dispatch_def)
  ultimately show ?thesis by blast
qed

text \<open>
  C6, where the code departs from it: a ping whose id is 0 is a request of the server,
  and gets no reply. \<open>handleIncomingMessage\<close> tests \<open>!message.id\<close>, which is true
  of the id 0, and takes the message for a notification: it is logged as one, and no
  \<open>fetch\<close> is issued. The same ping with the id 1 is answered with
  \<open>{jsonrpc: "2.0", id: 1, result: {}}\<close>.
\<close>

theorem ping_with_id_zero_gets_no_reply:
  "step (MessageEvent (Some
       (JObj [(''jsonrpc'', JStr ''2.0''), (''id'', JNum 0), (''method'', JStr ''ping'')])))
     (constructor ''http://localhost:8080'')
     = (constructor ''http://localhost:8080'')
         \<lparr>trace := [Console Log ''Received notification:'']\<rparr>
   \<and> handleIncomingMessage
       (JObj [(''jsonrpc'', JStr ''2.0''), (''id'', JNum 0), (''method'', JStr ''ping'')])
       (constructor ''http://localhost:8080'')
     = (None, console Log ''Received notification:'' (constructor ''http://localhost:8080''))
   \<and> step (MessageEvent (Some
       (JObj [(''jsonrpc'', JStr ''2.0''), (''id'', JNum 1), (''method'', JStr ''ping'')])))
     (constructor ''http://localhost:8080'')
     = (constructor ''http://localhost:8080'')
         \<lparr>trace := [Fetch 0 ''http://localhost:8080/message''
                       (JObj [(''jsonrpc'', JStr ''2.0''), (''id'', JNum 1),
                              (''result'', JObj [])])],
          sends := [0 \<mapsto> Uncaught],
          nextFetch := 1\<rparr>"
  by (simp add: message_event_def dispatch_def handleNotification_def handleServerRequest_def
        sendMessage_def console_def constructor_def endpoint_def)

section \<open>Disconnecting\<close>

lemma disconnect_closed: "eventSource (disconnect s) = None"
  by (simp add: disconnect_def emit_def console_def split: option.splits)

lemma disconnect_when_closed: "eventSource s = None \<Longrightarrow> disconnect s = s"
  by (simp add: disconnect_def)

lemma run_disconnects_closed:
  "eventSource s = None \<Longrightarrow> run (replicate n CallDisconnect) s = s"
  by (induction n) (simp_all add: run_def disconnect_when_closed)

text \<open>
  C7: \<open>disconnect\<close> is idempotent. The first call on an open connection closes the
  stream and calls each listener of the disconnect event once; every call after it, any
  number of them, returns the state it was given: no error, no change, no second event.
\<close>

theorem disconnect_idempotent:
  "disconnect (disconnect s) = disconnect s
   \<and> run (replicate n CallDisconnect) (disconnect s) = disconnect s
   \<and> (eventSource s = Some es \<longrightarrow>
        trace (disconnect s)
          = trace s @ [Close es, Console Log ''Disconnected from MCP server'']
              @ map (\<lambda>callback. Callback callback JUndefined)
                  (case eventListeners s ''disconnect'' of None \<Rightarrow> [] | Some cbs \<Rightarrow> cbs))"
proof -
  have "disconnect (disconnect s) = disconnect s"
    by (rule disconnect_when_closed) (rule disconnect_closed)
  moreover have "run (replicate n CallDisconnect) (disconnect s) = disconnect s"
    by (rule run_disconnects_closed) (rule disconnect_closed)
  moreover have "eventSource s = Some es \<longrightarrow>
        trace (disconnect s)
          = trace s @ [Close es, Console Log ''Disconnected from MCP server'']
              @ map (\<lambda>callback. Callback callback JUndefined)
                  (case eventListeners s ''disconnect'' of None \<Rightarrow> [] | Some cbs \<Rightarrow> cbs)"
    by (simp add: disconnect_def emit_def console_def split: option.splits)
  ultimately show ?thesis by blast
qed

theorem disconnect_idempotent_witness:
  "eventSource (on ''disconnect'' 7 (connect_opens (constructor ''http://localhost:8080'')))
     = Some ''http://localhost:8080/sse''
   \<and> trace (disconnect (on ''disconnect'' 7 (connect_opens (constructor ''http://localhost:8080''))))
     = [Close ''http://localhost:8080/sse'', Console Log ''Disconnected from MCP server'',
        Callback 7 JUndefined]
   \<and> trace (run [CallDisconnect, CallDisconnect]
               (disconnect (on ''disconnect'' 7 (connect_opens (constructor ''http://localhost:8080'')))))
     = [Close ''http://localhost:8080/sse'', Console Log ''Disconnected from MCP server'',
        Callback 7 JUndefined]"
  using disconnect_idempotent
          [of "on ''disconnect'' 7 (connect_opens (constructor ''http://localhost:8080''))"
              2 "''http://localhost:8080/sse''"]
  by (simp add: constructor_def connect_opens_def on_def numeral_2_eq_2)

section \<open>The default of withProgress\<close>

text \<open>
  C8: \<open>callTool\<close> called without its third argument asks for progress: the request
  it sends has \<open>params._meta.progressToken\<close>. The request goes out without
  \<open>_meta\<close> exactly when a third argument is given and is falsy, as \<open>false\<close> is.
\<close>

theorem callTool_progress_by_default:
  assumes "connected s"
  shows "trace (snd (callTool name args JUndefined now s))
           = trace s @ [Fetch (nextFetch s) (endpoint s)
                (JObj [(''jsonrpc'', JStr ''2.0''),
                       (''id'', JNum (nextRequestId s)),
                       (''method'', JStr ''tools/call''),
                       (''params'',
                        JObj [(''name'', name),
                              (''arguments'', if args = JUndefined then JObj [] else args),
                              (''_meta'', JObj [(''progressToken'', JStr (decimal now))])])])]
       \<and> (trace (snd (callTool name args withProgress now s))
           = trace s @ [Fetch (nextFetch s) (endpoint s)
                (JObj [(''jsonrpc'', JStr ''2.0''),
                       (''id'', JNum (nextRequestId s)),
                       (''method'', JStr ''tools/call''),
                       (''params'',
                        JObj [(''name'', name),
                              (''arguments'', if args = JUndefined then JObj [] else args)])])]
          \<longleftrightarrow> withProgress \<noteq> JUndefined \<and> \<not> truthy withProgress)"
  using assms
  by (simp add: callTool_connected sendRequest_trace or_else_def)

theorem callTool_progress_by_default_witness:
  "connected session
   \<and> trace (snd (callTool (JStr ''add'') (JObj [(''a'', JNum 33), (''b'', JNum 55)])
                  JUndefined 1700000000000 session))
     = trace session
       @ [Fetch 2 ''http://localhost:8080/message?sessionId=1''
            (JObj [(''jsonrpc'', JStr ''2.0''),
                   (''id'', JNum 2),
                   (''method'', JStr ''tools/call''),
                   (''params'',
                    JObj [(''name'', JStr ''add''),
                          (''arguments'', JObj [(''a'', JNum 33), (''b'', JNum 55)]),
                          (''_meta'', JObj [(''progressToken'', JStr ''1700000000000'')])])])]
   \<and> trace (snd (callTool (JStr ''add'') (JObj [(''a'', JNum 33), (''b'', JNum 55)])
                  (JBool False) 1700000000000 session))
     = trace session
       @ [Fetch 2 ''http://localhost:8080/message?sessionId=1''
            (JObj [(''jsonrpc'', JStr ''2.0''),
                   (''id'', JNum 2),
                   (''method'', JStr ''tools/call''),
                   (''params'',
                    JObj [(''name'', JStr ''add''),
                          (''arguments'', JObj [(''a'', JNum 33), (''b'', JNum 55)])])])]"
  using callTool_progress_by_default
          [of session "JStr ''add''" "JObj [(''a'', JNum 33), (''b'', JNum 55)]"
              1700000000000 "JBool False"]
  by (simp add: session_value endpoint_def decimal.simps digit_def)

section \<open>Notifications\<close>

lemma filter_fetch_callbacks: "filter is_fetch (map (\<lambda>callback. Callback callback d) cbs) = []"
  by (induction cbs) simp_all

lemma silent_refl: "silent s s"
  by (simp add: silent_def)

lemma silent_console: "silent s (console l txt s)"
  by (simp add: silent_def console_def)

lemma silent_console_emit: "silent s (emit event d (console l txt s))"
  by (simp add: silent_def emit_def console_def filter_fetch_callbacks split: option.splits)

lemma silent_handleNotification: "silent s (snd (handleNotification n s))"
  by (simp add: handleNotification_def Let_def silent_refl silent_console silent_console_emit)

lemma handleNotification_no_fetch:
  "filter is_fetch (trace (snd (handleNotification n s))) = filter is_fetch (trace s)
   \<and> nextFetch (snd (handleNotification n s)) = nextFetch s
   \<and> sends (snd (handleNotification n s)) = sends s"
  using silent_handleNotification [of s n] by (simp add: silent_def)

lemma console_no_fetch:
  "filter is_fetch (trace (console l txt s)) = filter is_fetch (trace s)"
  "nextFetch (console l txt s) = nextFetch s"
  "sends (console l txt s) = sends s"
  by (simp_all add: console_def)

text \<open>
  C9, as the code has it. A message that has a method field and a falsy id (0, null,
  false, the empty string, or none) gets no reply: no \<open>fetch\<close> is added, in
  \<open>handleIncomingMessage\<close> or in the listener of the stream that calls it. When
  its method is truthy, as every method name but the empty one is, it is handled by
  \<open>handleNotification\<close>, whatever the method is.
\<close>

theorem falsy_id_is_notification:
  assumes "field message ''method'' \<noteq> JUndefined" and "\<not> truthy (field message ''id'')"
  shows "(truthy (field message ''method'') \<longrightarrow>
            handleIncomingMessage message s = handleNotification message s)
       \<and> filter is_fetch (trace (snd (handleIncomingMessage message s))) = filter is_fetch (trace s)
       \<and> nextFetch (snd (handleIncomingMessage message s)) = nextFetch s
       \<and> sends (snd (handleIncomingMessage message s)) = sends s
       \<and> filter is_fetch (trace (step (MessageEvent (Some message)) s))
           = filter is_fetch (trace s)"
proof -
  from assms(1) have nn: "\<not> nullish message" and na: "\<not> is_array message"
    by (cases message; simp)+
  have d: "handleIncomingMessage message s = dispatch message s"
    by (rule handleIncomingMessage_dispatch [OF na])
  show ?thesis
  proof (cases "truthy (field message ''method'')")
    case True
    with assms(2) nn have eq: "handleIncomingMessage message s = handleNotification message s"
      by (simp add: d dispatch_def)
    note nf = handleNotification_no_fetch [of message s]
    have "filter is_fetch (trace (step (MessageEvent (Some message)) s))
             = filter is_fetch (trace s)"
      using nf by (cases "handleNotification message s")
        (auto simp: message_event_def eq console_no_fetch split: option.splits)
    with eq nf show ?thesis by simp
  next
    case False
    with assms(2) nn
    have eq: "handleIncomingMessage message s = (None, console Warn ''Unhandled message:'' s)"
      by (simp add: d dispatch_def)
    with False show ?thesis by (simp add: message_event_def console_no_fetch)
  qed
qed

theorem falsy_id_is_notification_witness:
  "handleIncomingMessage
     (JObj [(''jsonrpc'', JStr ''2.0''), (''id'', JNum 0), (''method'', JStr ''ping'')]) session
     = (None, console Log ''Received notification:'' session)
   \<and> handleIncomingMessage
     (JObj [(''jsonrpc'', JStr ''2.0''), (''id'', JStr []), (''method'', JStr ''roots/list'')])
     session
     = (None, console Log ''Received notification:'' session)"
  using falsy_id_is_notification
          [of "JObj [(''jsonrpc'', JStr ''2.0''), (''id'', JNum 0), (''method'', JStr ''ping'')]"
              session]
        falsy_id_is_notification
          [of "JObj [(''jsonrpc'', JStr ''2.0''), (''id'', JStr []),
                     (''method'', JStr ''roots/list'')]"
              session]
  by (simp add: handleNotification_def)

text \<open>
  Against C9 as it is written: a message that has a method field and the id 0 is not
  handled as a notification when the method is the empty string. It is logged as
  unhandled.
\<close>

theorem empty_method_is_unhandled:
  "handleIncomingMessage
     (JObj [(''jsonrpc'', JStr ''2.0''), (''id'', JNum 0), (''method'', JStr [])]) session
     = (None, console Warn ''Unhandled message:'' session)
   \<and> handleNotification
     (JObj [(''jsonrpc'', JStr ''2.0''), (''id'', JNum 0), (''method'', JStr [])]) session
     = (None, console Log ''Received notification:'' session)"
  by (simp add: dispatch_def handleNotification_def)

section \<open>A send that fails\<close>

text \<open>
  C10, as the code has it. \<open>sendRequest\<close> puts a \<open>catch\<close> on the send of its
  request. When the send fails, in any state a run of the client can reach, the
  \<open>catch\<close> clears the timer, deletes the entry of the request id and calls
  \<open>reject\<close> with the error of the send, in one step and without calling the handler:
  the promise has no handler and no timer left. The error of the send is the outcome
  of the promise if nothing had settled it before; a response or a timeout that had
  settled it before the send failed stays its outcome. From then on, whatever happens,
  the outcome stays and no response and no timeout settles this promise.
\<close>

theorem send_failure_cleans_up:
  assumes reach: "s = run evs (constructor url)"
      and catch: "sends s f = Some (SendRequestCatch rid t p)"
      and fails: "send_failure r = Some e"
  shows "fetch_settles f r s
           = s\<lparr>sends := (sends s)(f := None),
                trace := trace s @ [Console Err ''Error sending message:'', Reject p e],
                timers := (timers s)(t := None),
                messageHandlers := (messageHandlers s)(rid := None)\<rparr>
       \<and> timers (fetch_settles f r s) t = None
       \<and> messageHandlers (fetch_settles f r s) rid = None
       \<and> \<not> has_handler p (fetch_settles f r s) \<and> \<not> has_timer p (fetch_settles f r s)
       \<and> trace (fetch_settles f r s)
           = trace s @ [Console Err ''Error sending message:'', Reject p e]
       \<and> responses p (fetch_settles f r s) = responses p s
       \<and> timeouts p (fetch_settles f r s) = timeouts p s
       \<and> outcome p (fetch_settles f r s)
           = (case outcome p s of None \<Rightarrow> Some (Reject p e) | Some x \<Rightarrow> Some x)
       \<and> (0 < responses p s + timeouts p s \<longrightarrow>
            (\<exists>x. outcome p s = Some x \<and> (by_response p x \<or> by_timeout p x)))
       \<and> (\<forall>evs'. outcome p (run evs' (fetch_settles f r s)) = outcome p (fetch_settles f r s)
                 \<and> responses p (run evs' (fetch_settles f r s)) = responses p s
                 \<and> timeouts p (run evs' (fetch_settles f r s)) = timeouts p s)
       \<and> (\<not> nullish request \<longrightarrow>
            sends (snd (sendRequest request timeout s)) (nextFetch s)
              = Some (SendRequestCatch (nextRequestId s) (nextTimer s) (nextPromise s)))"
proof -
  let ?s' = "fetch_settles f r s"
  note g = fetch_settles_fields [OF catch fails refl]
  note inv = reachable_all_ok [OF reach]
  note c_ok = inv(1) and o_ok = inv(5)
  have cl: "(rid, t, p) \<in> closures s" by (rule catch_closure [OF catch])
  have dead: "\<not> has_handler p ?s'" "\<not> has_timer p ?s'"
    by (rule closure_removed [OF c_ok cl g(1,2)])+
  from closures_made [OF c_ok cl] have "p < nextPromise ?s'" by (simp only: g(4))
  with dead have ov: "over p ?s'" by (simp only: over_def simp_thms)
  have nr: "\<not> by_response p (Reject p e)" and nt: "\<not> by_timeout p (Reject p e)"
    using send_failure_cases [OF fails] by auto
  have same: "responses p ?s' = responses p s" "timeouts p ?s' = timeouts p s"
    unfolding responses_def timeouts_def g(7) using nr nt by simp_all
  have 0: "?s' = s\<lparr>sends := (sends s)(f := None),
                trace := trace s @ [Console Err ''Error sending message:'', Reject p e],
                timers := (timers s)(t := None),
                messageHandlers := (messageHandlers s)(rid := None)\<rparr>"
    using catch fails by (simp add: fetch_settles_def console_def clearTimeout_def reject_def)
  have 1: "timers ?s' t = None" unfolding g(2) by simp
  have 2: "messageHandlers ?s' rid = None" unfolding g(1) by simp
  have 3: "trace ?s' = trace s @ [Console Err ''Error sending message:'', Reject p e]"
    by (rule g(7))
  have 4: "outcome p ?s' = (case outcome p s of None \<Rightarrow> Some (Reject p e) | Some x \<Rightarrow> Some x)"
  proof (cases "outcome p s")
    case None
    from outcome_append_None [OF 3 None] None show ?thesis by simp
  next
    case (Some x)
    from outcome_append [OF 3 Some] Some show ?thesis by simp
  qed
  have 5: "0 < responses p s + timeouts p s \<longrightarrow>
            (\<exists>x. outcome p s = Some x \<and> (by_response p x \<or> by_timeout p x))"
    by (rule impI) (rule outcomes_ok_first [OF o_ok])
  have set: "outcome p ?s' \<noteq> None" unfolding 4 by (simp split: option.splits)
  have 6: "\<forall>evs'. outcome p (run evs' ?s') = outcome p ?s'
                 \<and> responses p (run evs' ?s') = responses p s
                 \<and> timeouts p (run evs' ?s') = timeouts p s"
  proof (intro allI)
    fix evs'
    from set obtain x where x: "outcome p ?s' = Some x" by auto
    from run_over [OF ov, of evs'] same run_outcome [OF x, of evs'] x
    show "outcome p (run evs' ?s') = outcome p ?s'
          \<and> responses p (run evs' ?s') = responses p s
          \<and> timeouts p (run evs' ?s') = timeouts p s"
      by (simp only: simp_thms)
  qed
  have 7: "\<not> nullish request \<longrightarrow>
            sends (snd (sendRequest request timeout s)) (nextFetch s)
              = Some (SendRequestCatch (nextRequestId s) (nextTimer s) (nextPromise s))"
    by (simp add: sendRequest_catch)
  show ?thesis
    by (rule conjI [OF 0 conjI [OF 1 conjI [OF 2 conjI [OF dead(1) conjI [OF dead(2)
          conjI [OF 3 conjI [OF same(1) conjI [OF same(2) conjI [OF 4 conjI [OF 5
          conjI [OF 6 7]]]]]]]]]]])
qed

theorem send_failure_cleans_up_witness:
  "sends both_waiting 0 = Some (SendRequestCatch 1 1 0)
   \<and> send_failure (Responds 503 ''Service Unavailable'')
       = Some (HttpError 503 ''Service Unavailable'')
   \<and> timers (fetch_settles 0 (Responds 503 ''Service Unavailable'') both_waiting) 1 = None
   \<and> messageHandlers (fetch_settles 0 (Responds 503 ''Service Unavailable'') both_waiting) 1 = None
   \<and> \<not> has_handler 0 (fetch_settles 0 (Responds 503 ''Service Unavailable'') both_waiting)
   \<and> \<not> has_timer 0 (fetch_settles 0 (Responds 503 ''Service Unavailable'') both_waiting)
   \<and> outcome 0 (fetch_settles 0 (Responds 503 ''Service Unavailable'') both_waiting)
       = Some (Reject 0 (HttpError 503 ''Service Unavailable''))
   \<and> outcome 0
       (run [MessageEvent (Some (result_for 1)), TimerFires 1]
          (fetch_settles 0 (Responds 503 ''Service Unavailable'') both_waiting))
       = Some (Reject 0 (HttpError 503 ''Service Unavailable''))
   \<and> responses 0
       (run [MessageEvent (Some (result_for 1)), TimerFires 1]
          (fetch_settles 0 (Responds 503 ''Service Unavailable'') both_waiting)) = 0
   \<and> timeouts 0
       (run [MessageEvent (Some (result_for 1)), TimerFires 1]
          (fetch_settles 0 (Responds 503 ''Service Unavailable'') both_waiting)) = 0
   \<and> sends both_settled 0 = Some (SendRequestCatch 1 1 0)
   \<and> responses 0 both_settled + timeouts 0 both_settled = 1
   \<and> outcome 0 (fetch_settles 0 Rejects both_settled) = Some (Resolve 0 (JObj [(''tools'', JArr [])]))"
proof -
  have c: "sends both_waiting 0 = Some (SendRequestCatch 1 1 0)"
    and z: "outcome 0 both_waiting = None" "responses 0 both_waiting = 0" "timeouts 0 both_waiting = 0"
    by (simp_all add: both_waiting_def two_requests_def loop_defs)
  have f: "send_failure (Responds 503 ''Service Unavailable'')
             = Some (HttpError 503 ''Service Unavailable'')" by simp
  note th = send_failure_cleans_up [OF both_waiting_def c f, where request = JNull and timeout = None]
  note t = th [THEN conjunct2, THEN conjunct1]
  note m = th [THEN conjunct2, THEN conjunct2, THEN conjunct1]
  note hh = th [THEN conjunct2, THEN conjunct2, THEN conjunct2, THEN conjunct1]
  note ht = th [THEN conjunct2, THEN conjunct2, THEN conjunct2, THEN conjunct2, THEN conjunct1]
  note o = th [THEN conjunct2, THEN conjunct2, THEN conjunct2, THEN conjunct2, THEN conjunct2,
               THEN conjunct2, THEN conjunct2, THEN conjunct2, THEN conjunct1,
               unfolded z(1) option.case]
  note ab = th [THEN conjunct2, THEN conjunct2, THEN conjunct2, THEN conjunct2, THEN conjunct2,
                THEN conjunct2, THEN conjunct2, THEN conjunct2, THEN conjunct2, THEN conjunct2,
                THEN conjunct1, THEN spec]
  note a = ab [THEN conjunct1, unfolded o]
  note b = ab [THEN conjunct2, THEN conjunct1, unfolded z(2)]
  note b' = ab [THEN conjunct2, THEN conjunct2, unfolded z(3)]
  have c2: "sends both_settled 0 = Some (SendRequestCatch 1 1 0)"
    and one: "responses 0 both_settled + timeouts 0 both_settled = 1"
    and o2: "outcome 0 both_settled = Some (Resolve 0 (JObj [(''tools'', JArr [])]))"
    by (simp_all add: both_settled_def two_requests_def result_for_def loop_defs)
  have f2: "send_failure Rejects = Some FetchError" by simp
  note th2 = send_failure_cleans_up [OF both_settled_def c2 f2, where request = JNull and timeout = None]
  have pos: "0 < responses 0 both_settled + timeouts 0 both_settled" by (simp only: one)
  note first = th2 [THEN conjunct2, THEN conjunct2, THEN conjunct2, THEN conjunct2, THEN conjunct2,
               THEN conjunct2, THEN conjunct2, THEN conjunct2, THEN conjunct2, THEN conjunct1,
               THEN mp, OF pos]
  note o3 = th2 [THEN conjunct2, THEN conjunct2, THEN conjunct2, THEN conjunct2, THEN conjunct2,
               THEN conjunct2, THEN conjunct2, THEN conjunct2, THEN conjunct1,
               unfolded o2 option.case]
  show ?thesis
    by (rule conjI [OF c conjI [OF f conjI [OF t conjI [OF m conjI [OF hh conjI [OF ht
          conjI [OF o conjI [OF a conjI [OF b conjI [OF b' conjI [OF c2 conjI [OF one o3]]]]]]]]]]]])
qed

text \<open>
  Against C10 as it is written: \<open>fetch\<close> has no timeout of its own, so the send of a
  request can fail after the timer of the request has fired, or after its response has
  come. The promise is then not rejected with the error of the send: it keeps the
  timeout error, or the result; and in the second case the handler has been called.
\<close>

theorem late_send_failure_is_not_the_outcome:
  "sends (run [CallSendRequest (JObj [(''method'', JStr ''tools/list'')]) None, TimerFires 1]
            (constructor ''http://localhost:8080'')) 0
     = Some (SendRequestCatch 1 1 0)
   \<and> trace (run [CallSendRequest (JObj [(''method'', JStr ''tools/list'')]) None, TimerFires 1,
                 FetchSettles 0 Rejects]
              (constructor ''http://localhost:8080''))
     = [Fetch 0 ''http://localhost:8080/message''
          (JObj [(''jsonrpc'', JStr ''2.0''), (''id'', JNum 1),
                 (''method'', JStr ''tools/list''), (''params'', JObj [])]),
        Reject 0 (TimeoutError 30000),
        Console Err ''Error sending message:'',
        Reject 0 FetchError]
   \<and> outcome 0 (run [CallSendRequest (JObj [(''method'', JStr ''tools/list'')]) None,
                     TimerFires 1, FetchSettles 0 Rejects]
                  (constructor ''http://localhost:8080''))
     = Some (Reject 0 (TimeoutError 30000))
   \<and> trace (run [CallSendRequest (JObj [(''method'', JStr ''tools/list'')]) None,
                 MessageEvent (Some (JObj [(''jsonrpc'', JStr ''2.0''), (''id'', JNum 1),
                                           (''result'', JObj [(''tools'', JArr [])])])),
                 FetchSettles 0 (Responds 500 ''Internal Server Error'')]
              (constructor ''http://localhost:8080''))
     = [Fetch 0 ''http://localhost:8080/message''
          (JObj [(''jsonrpc'', JStr ''2.0''), (''id'', JNum 1),
                 (''method'', JStr ''tools/list''), (''params'', JObj [])]),
        Resolve 0 (JObj [(''tools'', JArr [])]),
        Console Err ''Error sending message:'',
        Reject 0 (HttpError 500 ''Internal Server Error'')]
   \<and> outcome 0 (run [CallSendRequest (JObj [(''method'', JStr ''tools/list'')]) None,
                 MessageEvent (Some (JObj [(''jsonrpc'', JStr ''2.0''), (''id'', JNum 1),
                                           (''result'', JObj [(''tools'', JArr [])])])),
                 FetchSettles 0 (Responds 500 ''Internal Server Error'')]
              (constructor ''http://localhost:8080''))
     = Some (Resolve 0 (JObj [(''tools'', JArr [])]))"
  by (simp add: loop_defs)

end
